theory Spec2Isabelle
  imports Main
begin

section \<open>Data model\<close>

text \<open>
  One row of the long-format frame \<open>df_pivot\<close> (columns \<open>year\<close>, \<open>country\<close>, \<open>gdp\<close>, the
  first and the last already converted by \<open>astype(int)\<close>).
\<close>

record long_record =
  year :: int
  country :: string
  gdp :: int

text \<open>
  The exceptions the modelled code can raise: \<open>IndexError\<close> from indexing a list,
  \<open>ValueError\<close> from \<open>list.remove\<close>, and \<open>EvalError\<close> for whatever \<open>pd.eval\<close> raises on an
  expression it cannot evaluate. \<open>Unsupported\<close> is not a Python exception: it marks an
  input on which the model gives no answer, because the library call leaves the fragment
  of pandas that is modelled here. No theorem below draws a conclusion from it.
\<close>

datatype error =
    IndexError
  | ValueError
  | EvalError
  | Unsupported

section \<open>The list objects and the process-wide state\<close>

text \<open>
  \<open>all_countries\<close> is a Python list, a mutable object that the callback reaches through a
  global name. List objects live in a store addressed by position; a variable holds an
  address. The frame \<open>df_pivot\<close> is only ever read and re-filtered into new frames, so it is
  held by value.
\<close>

type_synonym ref = nat
type_synonym heap = "string list list"

record app_state =
  df_pivot :: "long_record list"
  all_countries :: ref
  heap :: heap

text \<open>\<open>xs.copy()\<close>: a new list object with the same elements, at a fresh address.\<close>

definition list_copy :: "ref \<Rightarrow> heap \<Rightarrow> ref \<times> heap" where
  "list_copy r h = (length h, h @ [h ! r])"

text \<open>
  \<open>xs.remove(x)\<close>: deletes the first occurrence of \<open>x\<close> in place, and raises
  \<open>ValueError\<close> when there is none.
\<close>

definition list_remove :: "ref \<Rightarrow> string \<Rightarrow> heap \<Rightarrow> error + heap" where
  "list_remove r x h =
     (if x \<in> set (h ! r) then Inr (h[r := remove1 x (h ! r)]) else Inl ValueError)"

section \<open>The callback \<open>update_figure\<close>\<close>

text \<open>
  \<open>for country in countries: countries_filter.remove(country)\<close>. The store is returned
  as it is when the exception leaves the loop.
\<close>

fun remove_each :: "ref \<Rightarrow> string list \<Rightarrow> heap \<Rightarrow> (error + unit) \<times> heap" where
  "remove_each r [] h = (Inr (), h)"
| "remove_each r (c # cs) h =
     (case list_remove r c h of
        Inl e \<Rightarrow> (Inl e, h)
      | Inr h' \<Rightarrow> remove_each r cs h')"

text \<open>
  \<open>for country in countries_filter: filtered_df = filtered_df[filtered_df['country'] != country]\<close>
\<close>

fun drop_countries :: "string list \<Rightarrow> long_record list \<Rightarrow> long_record list" where
  "drop_countries [] t = t"
| "drop_countries (c # cs) t = drop_countries cs (filter (\<lambda>r. country r \<noteq> c) t)"

text \<open>
  Lines 113 to 121: the country step, from the copy of \<open>all_countries\<close> to the frame with
  the unselected countries dropped (\<open>print\<close> writes to the console only).
\<close>

definition country_step ::
  "string list \<Rightarrow> long_record list \<Rightarrow> app_state \<Rightarrow> (error + long_record list) \<times> app_state" where
  "country_step countries filtered_df s =
     (let (countries_filter, h1) = list_copy (all_countries s) (heap s) in
      case remove_each countries_filter countries h1 of
        (Inl e, h2) \<Rightarrow> (Inl e, s\<lparr>heap := h2\<rparr>)
      | (Inr _, h2) \<Rightarrow>
          (Inr (drop_countries (h2 ! countries_filter) filtered_df), s\<lparr>heap := h2\<rparr>))"

text \<open>
  The whole callback. \<open>year_range\<close> is the two-element list of the range slider;
  \<open>year_range[0]\<close> and \<open>year_range[1]\<close> raise \<open>IndexError\<close> on a shorter list. The
  value returned is the frame handed to \<open>px.line\<close>, which draws it.
\<close>

definition update_figure ::
  "int list \<Rightarrow> string list \<Rightarrow> app_state \<Rightarrow> (error + long_record list) \<times> app_state" where
  "update_figure year_range countries s =
     (case year_range of
        [] \<Rightarrow> (Inl IndexError, s)
      | lo # rest \<Rightarrow>
          (let filtered_df = filter (\<lambda>r. lo \<le> year r) (df_pivot s) in
           case rest of
             [] \<Rightarrow> (Inl IndexError, s)
           | hi # _ \<Rightarrow>
               (let filtered_df = filter (\<lambda>r. year r \<le> hi) filtered_df
                in country_step countries filtered_df s)))"

text \<open>The list object that \<open>all_countries\<close> names.\<close>

definition country_list :: "app_state \<Rightarrow> string list" where
  "country_list s = heap s ! all_countries s"

text \<open>
  What start-up establishes and every call relies on: the address is allocated, the list
  has no repetition (it is the result of \<open>unique()\<close>), and every row of \<open>df_pivot\<close> carries
  one of its names (the rows are melted from exactly these columns).
\<close>

definition wf_state :: "app_state \<Rightarrow> bool" where
  "wf_state s \<longleftrightarrow>
     all_countries s < length (heap s) \<and>
     distinct (country_list s) \<and>
     (\<forall>r \<in> set (df_pivot s). country r \<in> set (country_list s))"

text \<open>
  Direct inclusion filtering, in the words of the specification of the Filter Engine
  ("membership test is direct inclusion"): keep the records whose country is a selected one.
\<close>

definition inclusion_filter :: "string set \<Rightarrow> long_record list \<Rightarrow> long_record list" where
  "inclusion_filter sel t = filter (\<lambda>r. country r \<in> sel) t"

section \<open>The conversion of a cell: \<open>replace\<close>, \<open>pd.eval\<close>, \<open>astype(int)\<close>\<close>

text \<open>
  Line 33 converts the \<open>gdp\<close> column in three steps: every \<open>k\<close> of a cell is replaced by
  the text \<open>*1e3\<close>, the result is evaluated as an expression by \<open>pd.eval\<close>, and the value is
  cast to an integer.
\<close>

definition replace_k :: "string \<Rightarrow> string" where
  "replace_k s = concat (map (\<lambda>c. if c = CHR ''k'' then ''*1e3'' else [c]) s)"

subsection \<open>Numbers as Python has them\<close>

text \<open>
  A Python value of the modelled fragment: an integer, or a float, which is an IEEE 754
  binary64 number. Only non-negative values arise, since the fragment has no sign.
  \<open>PyFloat m e\<close> is the double \<open>m * 2 ^ e\<close>.
\<close>

datatype pyval = PyInt nat | PyFloat nat int

fun bitlen :: "nat \<Rightarrow> nat" where
  "bitlen n = (if n = 0 then 0 else Suc (bitlen (n div 2)))"

declare bitlen.simps [simp del]

text \<open>The integer nearest to \<open>n / d\<close>, a tie going to the even one.\<close>

definition round_half_even :: "nat \<Rightarrow> nat \<Rightarrow> nat" where
  "round_half_even n d =
     (let q = n div d; r = n mod d
      in if 2 * r < d then q else if d < 2 * r then q + 1 else if even q then q else q + 1)"

text \<open>The fraction \<open>(n / d) / 2 ^ e\<close>, as numerator and denominator.\<close>

definition scaled :: "nat \<Rightarrow> nat \<Rightarrow> int \<Rightarrow> nat \<times> nat" where
  "scaled n d e = (if 0 \<le> e then (n, d * 2 ^ nat e) else (n * 2 ^ nat (- e), d))"

text \<open>
  The double nearest to the rational \<open>n / d\<close> (\<open>d > 0\<close>), as float literals and float
  products are rounded: the exponent \<open>e\<close> is chosen with \<open>2 ^ 52 \<le> (n / d) / 2 ^ e < 2 ^ 53\<close>
  and the 53-bit significand is rounded to nearest, ties to even. Results outside the normal
  range (subnormal, or from \<open>2 ^ 1023\<close> on, where overflow to infinity begins) are not
  modelled.
\<close>

definition to_binary64 :: "nat \<Rightarrow> nat \<Rightarrow> error + nat \<times> int" where
  "to_binary64 n d =
     (if n = 0 then Inr (0, 0)
      else
        let e0 = int (bitlen n) - int (bitlen d) - 53;
            e = (case scaled n d e0 of (a, b) \<Rightarrow> if 2 ^ 53 * b \<le> a then e0 + 1 else e0)
        in if e < - 1074 \<or> 970 < e then Inl Unsupported
           else case scaled n d e of (a, b) \<Rightarrow> Inr (round_half_even a b, e))"

text \<open>The product of two doubles: the exact product, rounded.\<close>

definition float_mul :: "nat \<times> int \<Rightarrow> nat \<times> int \<Rightarrow> error + nat \<times> int" where
  "float_mul x y =
     (case (x, y) of ((m1, e1), (m2, e2)) \<Rightarrow>
        if 0 \<le> e1 + e2 then to_binary64 (m1 * m2 * 2 ^ nat (e1 + e2)) 1
        else to_binary64 (m1 * m2) (2 ^ nat (- (e1 + e2))))"

text \<open>
  \<open>a * b\<close>. An integer meeting a float is converted to a float first. Integers are kept
  below \<open>2 ^ 53\<close>, where the integer and the float arithmetic of the evaluation engines
  agree.
\<close>

fun py_mul :: "pyval \<Rightarrow> pyval \<Rightarrow> error + pyval" where
  "py_mul (PyInt a) (PyInt b) =
     (if a * b < 2 ^ 53 then Inr (PyInt (a * b)) else Inl Unsupported)"
| "py_mul (PyInt a) (PyFloat m e) =
     (case to_binary64 a 1 of
        Inl err \<Rightarrow> Inl err
      | Inr x \<Rightarrow> map_sum id (\<lambda>(m', e'). PyFloat m' e') (float_mul x (m, e)))"
| "py_mul (PyFloat m e) (PyInt b) =
     (case to_binary64 b 1 of
        Inl err \<Rightarrow> Inl err
      | Inr y \<Rightarrow> map_sum id (\<lambda>(m', e'). PyFloat m' e') (float_mul (m, e) y))"
| "py_mul (PyFloat m1 e1) (PyFloat m2 e2) =
     map_sum id (\<lambda>(m', e'). PyFloat m' e') (float_mul (m1, e1) (m2, e2))"

text \<open>
  \<open>astype(int)\<close> on a value: an integer stays, a float is truncated towards zero. A float
  from \<open>2 ^ 63\<close> on does not fit the 64-bit target and is not modelled.
\<close>

fun astype_int :: "pyval \<Rightarrow> error + int" where
  "astype_int (PyInt n) = Inr (int n)"
| "astype_int (PyFloat m e) =
     (let v = (if 0 \<le> e then m * 2 ^ nat e else m div 2 ^ nat (- e))
      in if v < 2 ^ 63 then Inr (int v) else Inl Unsupported)"

subsection \<open>Tokens\<close>

definition is_digit :: "char \<Rightarrow> bool" where
  "is_digit c \<longleftrightarrow> c \<in> set ''0123456789''"

definition is_alpha :: "char \<Rightarrow> bool" where
  "is_alpha c \<longleftrightarrow> c \<in> set ''abcdefghijklmnopqrstuvwxyzABCDEFGHIJKLMNOPQRSTUVWXYZ_''"

definition is_alnum :: "char \<Rightarrow> bool" where
  "is_alnum c \<longleftrightarrow> is_alpha c \<or> is_digit c"

text \<open>The value of a digit: its position among the ten digits.\<close>

definition digit_val :: "char \<Rightarrow> nat" where
  "digit_val c = length (takeWhile (\<lambda>d. d \<noteq> c) ''0123456789'')"

definition nat_of_digits :: "string \<Rightarrow> nat" where
  "nat_of_digits s = foldl (\<lambda>n c. 10 * n + digit_val c) 0 s"

text \<open>
  The tokens of the fragment: a decimal integer literal (its digits), a float literal (the
  digits before the point, after the point, and of the exponent), the operator \<open>*\<close>, a
  point that belongs to no number, and a name.
\<close>

datatype token =
    TInt string
  | TFloat string string string
  | TStar
  | TDot
  | TName string

text \<open>After the integer part: an optional point with its digits.\<close>

definition scan_fraction :: "string \<Rightarrow> bool \<times> string \<times> string" where
  "scan_fraction s =
     (case s of
        [] \<Rightarrow> (False, [], [])
      | c # r \<Rightarrow>
          if c = CHR ''.'' then (True, takeWhile is_digit r, dropWhile is_digit r)
          else (False, [], s))"

text \<open>After that: an optional exponent, \<open>e\<close> or \<open>E\<close> followed by digits.\<close>

definition scan_exponent :: "string \<Rightarrow> string option \<times> string" where
  "scan_exponent s =
     (case s of
        c # d # r \<Rightarrow>
          if (c = CHR ''e'' \<or> c = CHR ''E'') \<and> is_digit d
          then (Some (takeWhile is_digit (d # r)), dropWhile is_digit (d # r))
          else (None, s)
      | _ \<Rightarrow> (None, s))"

text \<open>
  The longest number at the head of \<open>c # cs\<close>, where \<open>c\<close> is a digit or a point, and the
  rest of the text. A point with no digit on either side is a token of its own.
\<close>

definition scan_number :: "char \<Rightarrow> string \<Rightarrow> token \<times> string" where
  "scan_number c cs =
     (let ip = takeWhile is_digit (c # cs);
          (dot, fp, r2) = scan_fraction (dropWhile is_digit (c # cs))
      in if ip = [] \<and> fp = [] then (TDot, r2)
         else case scan_exponent r2 of
                (None, r3) \<Rightarrow> (if dot then TFloat ip fp [] else TInt ip, r3)
              | (Some ex, r3) \<Rightarrow> (TFloat ip fp ex, r3))"

lemma scan_fraction_length:
  assumes "scan_fraction s = (dot, fp, r)"
  shows "length r \<le> length s"
proof (cases s)
  case Nil
  then show ?thesis using assms by (simp add: scan_fraction_def)
next
  case (Cons c s')
  have "length (dropWhile is_digit s') \<le> length s'" by (rule length_dropWhile_le)
  then show ?thesis using assms Cons by (auto simp: scan_fraction_def split: if_splits)
qed

lemma scan_exponent_length:
  assumes "scan_exponent s = (ex, r)"
  shows "length r \<le> length s"
proof (cases s)
  case Nil
  then show ?thesis using assms by (simp add: scan_exponent_def)
next
  case (Cons c s')
  show ?thesis
  proof (cases s')
    case Nil
    then show ?thesis using assms Cons by (simp add: scan_exponent_def)
  next
    case (Cons d r')
    have "length (dropWhile is_digit (d # r')) \<le> Suc (length r')"
      using length_dropWhile_le[of is_digit "d # r'"] by simp
    then show ?thesis
      using assms Cons \<open>s = c # s'\<close> by (auto simp: scan_exponent_def split: if_splits)
  qed
qed

lemma scan_number_length:
  assumes "scan_number c cs = (tok, rest)" and "is_digit c \<or> c = CHR ''.''"
  shows "length rest \<le> length cs"
proof -
  obtain dot fp r2 where f: "scan_fraction (dropWhile is_digit (c # cs)) = (dot, fp, r2)"
    by (cases "scan_fraction (dropWhile is_digit (c # cs))") auto
  have r2: "length r2 \<le> length cs"
  proof (cases "is_digit c")
    case True
    then have "dropWhile is_digit (c # cs) = dropWhile is_digit cs" by simp
    then have "length r2 \<le> length (dropWhile is_digit cs)"
      using scan_fraction_length[OF f] by simp
    then show ?thesis using length_dropWhile_le[of is_digit cs] by linarith
  next
    case False
    then have "c = CHR ''.''" using assms(2) by simp
    then have "r2 = dropWhile is_digit cs"
      using f False by (simp add: scan_fraction_def)
    then show ?thesis by (simp add: length_dropWhile_le)
  qed
  obtain ex r3 where e: "scan_exponent r2 = (ex, r3)" by (cases "scan_exponent r2")
  have "length r3 \<le> length r2" by (rule scan_exponent_length[OF e])
  moreover have "rest = r2 \<or> rest = r3"
  proof (cases "is_digit c")
    case True
    then have "scan_fraction (dropWhile is_digit cs) = (dot, fp, r2)" using f by simp
    then show ?thesis
      using assms(1) True by (auto simp: scan_number_def Let_def e split: if_splits option.splits)
  next
    case False
    then have "scan_fraction (c # cs) = (dot, fp, r2)" using f by simp
    then show ?thesis
      using assms(1) False by (auto simp: scan_number_def Let_def e split: if_splits option.splits)
  qed
  ultimately show ?thesis using r2 by auto
qed

text \<open>
  The text as tokens, left to right. What the fragment leaves out gives \<open>Unsupported\<close>: a
  character other than a digit, a letter, \<open>_\<close>, a point or \<open>*\<close> (signs, spaces, brackets and
  the other operators), the operator \<open>**\<close>, and a number directly followed by a letter
  or \<open>_\<close> (a hexadecimal, octal, binary or imaginary literal, digit grouping).
\<close>

function lex :: "string \<Rightarrow> error + token list" where
  "lex [] = Inr []"
| "lex (c # cs) =
     (if is_digit c \<or> c = CHR ''.'' then
        (case scan_number c cs of
           (tok, rest) \<Rightarrow>
             if tok \<noteq> TDot \<and> (case rest of [] \<Rightarrow> False | d # _ \<Rightarrow> is_alpha d)
             then Inl Unsupported
             else map_sum id (Cons tok) (lex rest))
      else if c = CHR ''*'' then
        (case cs of
           [] \<Rightarrow> Inr [TStar]
         | d # _ \<Rightarrow>
             if d = CHR ''*'' then Inl Unsupported else map_sum id (Cons TStar) (lex cs))
      else if is_alpha c then
        map_sum id (Cons (TName (c # takeWhile is_alnum cs))) (lex (dropWhile is_alnum cs))
      else Inl Unsupported)"
  by pat_completeness auto
termination
  apply (relation "measure length")
   apply simp_all
  subgoal for c cs x y
    using scan_number_length[of c cs x y] by simp
  subgoal for c cs
    using length_dropWhile_le[of is_alnum cs] by simp
  done

subsection \<open>Evaluation\<close>

text \<open>
  A decimal integer literal may not have a leading zero, unless all its digits are zero.
\<close>

definition valid_int_literal :: "string \<Rightarrow> bool" where
  "valid_int_literal ip \<longleftrightarrow>
     (case ip of [] \<Rightarrow> False | c # _ \<Rightarrow> c \<noteq> CHR ''0'' \<or> list_all (\<lambda>d. d = CHR ''0'') ip)"

definition python_keywords :: "string list" where
  "python_keywords =
     [''False'', ''None'', ''True'', ''and'', ''as'', ''assert'', ''async'', ''await'',
      ''break'', ''class'', ''continue'', ''def'', ''del'', ''elif'', ''else'', ''except'',
      ''finally'', ''for'', ''from'', ''global'', ''if'', ''import'', ''in'', ''is'',
      ''lambda'', ''nonlocal'', ''not'', ''or'', ''pass'', ''raise'', ''return'', ''try'',
      ''while'', ''with'', ''yield'']"

fun is_name :: "token \<Rightarrow> bool" where
  "is_name (TName _) = True"
| "is_name _ = False"

fun is_operand :: "token \<Rightarrow> bool" where
  "is_operand TStar = False"
| "is_operand TDot = False"
| "is_operand _ = True"

text \<open>A name that is a keyword, or that the scope of the evaluation binds.\<close>

fun bound_name :: "string list \<Rightarrow> token \<Rightarrow> bool" where
  "bound_name scope (TName n) \<longleftrightarrow> n \<in> set python_keywords \<or> n \<in> set scope"
| "bound_name scope _ \<longleftrightarrow> False"

fun bad_literal :: "token \<Rightarrow> bool" where
  "bad_literal (TInt ip) \<longleftrightarrow> \<not> valid_int_literal ip"
| "bad_literal _ \<longleftrightarrow> False"

text \<open>
  The operands of a product \<open>x * y * \<dots>\<close>, or \<open>None\<close> when the tokens are not operands
  separated by single \<open>*\<close>.
\<close>

fun operands :: "token list \<Rightarrow> token list option" where
  "operands [] = None"
| "operands [t] = (if is_operand t then Some [t] else None)"
| "operands (t # u # ts) =
     (if is_operand t \<and> u = TStar then map_option (Cons t) (operands ts) else None)"

text \<open>
  The value of a literal. An integer literal from \<open>2 ^ 53\<close> on is not modelled.
\<close>

fun operand_value :: "token \<Rightarrow> error + pyval" where
  "operand_value (TInt ip) =
     (if nat_of_digits ip < 2 ^ 53 then Inr (PyInt (nat_of_digits ip)) else Inl Unsupported)"
| "operand_value (TFloat ip fp ex) =
     map_sum id (\<lambda>(m, e). PyFloat m e)
       (to_binary64 (nat_of_digits (ip @ fp) * 10 ^ nat_of_digits ex) (10 ^ length fp))"
| "operand_value _ = Inl Unsupported"

text \<open>The product, from the left.\<close>

fun eval_product :: "pyval \<Rightarrow> token list \<Rightarrow> error + pyval" where
  "eval_product acc [] = Inr acc"
| "eval_product acc (t # ts) =
     (case operand_value t of
        Inl err \<Rightarrow> Inl err
      | Inr v \<Rightarrow>
          (case py_mul acc v of
             Inl err \<Rightarrow> Inl err
           | Inr acc' \<Rightarrow> eval_product acc' ts))"

text \<open>
  \<open>pd.eval\<close>, which belongs to pandas and is modelled here on the expressions that cells of
  digits, points and \<open>k\<close> lead to, and on names: products of decimal literals.
  \<open>scope\<close> lists the names that are bound where pandas evaluates the expression (the
  frames of the caller and pandas' own globals); a product with an unbound name raises.
  \<open>EvalError\<close> stands for the exception \<open>pd.eval\<close> raises: on the empty text, on a syntax
  error (tokens that are no product, an integer literal with a leading zero), on an
  undefined name. Keywords, bound names and attribute access are not modelled.
\<close>

definition pd_eval :: "string list \<Rightarrow> string \<Rightarrow> error + pyval" where
  "pd_eval scope s =
     (if s = [] then Inl EvalError
      else
        case lex s of
          Inl err \<Rightarrow> Inl err
        | Inr toks \<Rightarrow>
            if list_ex (bound_name scope) toks then Inl Unsupported
            else if TDot \<in> set toks \<and> list_ex is_name toks then Inl Unsupported
            else
              (case operands toks of
                 None \<Rightarrow> Inl EvalError
               | Some ops \<Rightarrow>
                   if list_ex bad_literal ops \<or> list_ex is_name ops then Inl EvalError
                   else
                     (case operand_value (hd ops) of
                        Inl err \<Rightarrow> Inl err
                      | Inr v \<Rightarrow> eval_product v (tl ops))))"

text \<open>The three steps on one cell.\<close>

definition gdp_value :: "string list \<Rightarrow> string \<Rightarrow> error + int" where
  "gdp_value scope cell =
     (case pd_eval scope (replace_k cell) of
        Inl err \<Rightarrow> Inl err
      | Inr v \<Rightarrow> astype_int v)"

text \<open>The equations that evaluate the conversion of a given cell.\<close>

lemmas eval_simps =
  gdp_value_def pd_eval_def replace_k_def scan_number_def scan_fraction_def
  scan_exponent_def is_digit_def is_alpha_def is_alnum_def to_binary64_def scaled_def
  round_half_even_def float_mul_def bitlen.simps nat_of_digits_def digit_val_def
  valid_int_literal_def python_keywords_def Let_def


section \<open>The two forms of a cell, in the words of the specification\<close>

text \<open>
  "A cell value is a string that is either a plain integer, or a number followed by a
  \<open>k\<close> suffix": a plain integer is a non-empty text of decimal digits, a number is digits
  with an optional point and fraction digits.
\<close>

definition plain_integer :: "string \<Rightarrow> bool" where
  "plain_integer s \<longleftrightarrow> s \<noteq> [] \<and> list_all is_digit s"

definition number_text :: "string \<Rightarrow> bool" where
  "number_text s \<longleftrightarrow>
     (let ip = takeWhile is_digit s; r = dropWhile is_digit s
      in ip \<noteq> [] \<and> (r = [] \<or> (hd r = CHR ''.'' \<and> tl r \<noteq> [] \<and> list_all is_digit (tl r))))"

definition k_suffixed :: "string \<Rightarrow> bool" where
  "k_suffixed s \<longleftrightarrow> s \<noteq> [] \<and> last s = CHR ''k'' \<and> number_text (butlast s)"

section \<open>Start-up: from the wide table to the long frame\<close>

text \<open>
  The frame \<open>df\<close> that \<open>read_csv\<close> returns: the labels of the year columns (the columns
  after \<open>country\<close>), and per row the country and the cells of those columns. A frame is
  rectangular: every row has one cell per year column. A cell is text; a cell that
  \<open>read_csv\<close> has turned into a number is processed through its printed form, and
  stands here as that text.
\<close>

record wide_table =
  year_labels :: "string list"
  wide_rows :: "(string \<times> string list) list"

text \<open>\<open>unique()\<close>: the distinct values, in the order of their first appearance.\<close>

fun unique :: "'a list \<Rightarrow> 'a list" where
  "unique [] = []"
| "unique (x # xs) = x # unique (removeAll x xs)"

text \<open>
  Lines 17 to 31. The transposed frame has one column per row of \<open>df\<close>, named by its
  country, and one row per year label. \<open>melt\<close> goes through \<open>value_vars\<close> in order, takes
  the columns of that name, and for each gives a row (year label, country, cell) per year
  label, in the order of the labels.
\<close>

definition melt :: "wide_table \<Rightarrow> string list \<Rightarrow> (string \<times> string \<times> string) list" where
  "melt df value_vars =
     [(y, c, v). c \<leftarrow> value_vars, (name, cells) \<leftarrow> wide_rows df, name = c,
                 (y, v) \<leftarrow> zip (year_labels df) cells]"

text \<open>
  A function applied to every element of a column, in order; the first exception leaves.
\<close>

fun series_map :: "('a \<Rightarrow> error + 'b) \<Rightarrow> 'a list \<Rightarrow> error + 'b list" where
  "series_map f [] = Inr []"
| "series_map f (x # xs) =
     (case f x of
        Inl err \<Rightarrow> Inl err
      | Inr y \<Rightarrow> (case series_map f xs of Inl err \<Rightarrow> Inl err | Inr ys \<Rightarrow> Inr (y # ys)))"

text \<open>
  \<open>astype(int)\<close> on a year label, which is text: a label of decimal digits gives its
  value. The other texts that \<open>int()\<close> accepts (a sign, blanks, digit grouping), the texts
  on which it raises, and values from \<open>2 ^ 63\<close> on are not modelled.
\<close>

definition str_to_int :: "string \<Rightarrow> error + int" where
  "str_to_int s =
     (if s \<noteq> [] \<and> list_all is_digit s \<and> nat_of_digits s < 2 ^ 63
      then Inr (int (nat_of_digits s)) else Inl Unsupported)"

text \<open>
  Country names that collide with the column names the code itself introduces
  (\<open>index\<close>, \<open>year\<close>, \<open>country\<close>, \<open>gdp\<close>) are not modelled.
\<close>

definition reserved_names :: "string list" where
  "reserved_names = [''index'', ''year'', ''country'', ''gdp'']"

text \<open>
  Lines 17 to 35: \<open>df_pivot\<close>. The \<open>gdp\<close> column is converted first, step by step over
  the whole column, then the \<open>year\<close> column.
\<close>

definition reshape :: "string list \<Rightarrow> wide_table \<Rightarrow> error + long_record list" where
  "reshape scope df =
     (let value_vars = unique (map fst (wide_rows df)) in
      if list_ex (\<lambda>c. c \<in> set reserved_names) value_vars then Inl Unsupported
      else
        let melted = melt df value_vars in
        case series_map (pd_eval scope) (map (\<lambda>(y, c, v). replace_k v) melted) of
          Inl err \<Rightarrow> Inl err
        | Inr vals \<Rightarrow>
            (case series_map astype_int vals of
               Inl err \<Rightarrow> Inl err
             | Inr gdps \<Rightarrow>
                 (case series_map str_to_int (map (\<lambda>(y, c, v). y) melted) of
                    Inl err \<Rightarrow> Inl err
                  | Inr years \<Rightarrow>
                      Inr (map (\<lambda>((y, c, v), g, yr). \<lparr>year = yr, country = c, gdp = g\<rparr>)
                             (zip melted (zip gdps years))))))"

text \<open>
  The state after start-up: \<open>all_countries\<close> (line 28) is the first list object, and
  \<open>df_pivot\<close> the reshaped frame.
\<close>

definition startup :: "string list \<Rightarrow> wide_table \<Rightarrow> error + app_state" where
  "startup scope df =
     (case reshape scope df of
        Inl err \<Rightarrow> Inl err
      | Inr t \<Rightarrow>
          Inr \<lparr>df_pivot = t, all_countries = 0, heap = [unique (map fst (wide_rows df))]\<rparr>)"

text \<open>Lines 38 to 40: the years of the data set, and those divisible by 25.\<close>

definition unique_years :: "long_record list \<Rightarrow> int list" where
  "unique_years t = unique (map year t)"

definition mark_years :: "long_record list \<Rightarrow> int list" where
  "mark_years t = filter (\<lambda>y. y mod 25 = 0) (unique_years t)"

section \<open>Notions used to state the properties of the reshaped frame\<close>

text \<open>
  A melted row (year label, country, cell) and the record it becomes: the label converts to
  the year, the country is kept, the cell converts to the gdp.
\<close>

definition row_ok :: "string list \<Rightarrow> string \<times> string \<times> string \<Rightarrow> long_record \<Rightarrow> bool" where
  "row_ok scope m r \<longleftrightarrow>
     str_to_int (fst m) = Inr (year r) \<and> country r = fst (snd m) \<and>
     gdp_value scope (snd (snd m)) = Inr (gdp r)"

text \<open>The record of a melted row, when both conversions succeed.\<close>

definition long_record_of :: "string list \<Rightarrow> string \<times> string \<times> string \<Rightarrow> long_record" where
  "long_record_of scope m =
     \<lparr>year = projr (str_to_int (fst m)), country = fst (snd m),
      gdp = projr (gdp_value scope (snd (snd m)))\<rparr>"

text \<open>The melted rows that one row of the wide table gives.\<close>

definition long_rows :: "string list \<Rightarrow> string \<times> string list \<Rightarrow> (string \<times> string \<times> string) list" where
  "long_rows labels row = map (\<lambda>(y, v). (y, fst row, v)) (zip labels (snd row))"

text \<open>
  The records of one country are contiguous: with adjacent repetitions removed, no country
  occurs twice in the \<open>country\<close> column.
\<close>

definition grouped_by_country :: "long_record list \<Rightarrow> bool" where
  "grouped_by_country t \<longleftrightarrow> distinct (remdups_adj (map country t))"

text \<open>Within each country the years ascend strictly, in the order of the frame.\<close>

definition years_ascending :: "long_record list \<Rightarrow> bool" where
  "years_ascending t \<longleftrightarrow>
     (\<forall>c \<in> country ` set t. sorted_wrt (<) (map year (filter (\<lambda>r. country r = c) t)))"

section \<open>A small data set\<close>

text \<open>
  The scenario of the specification: the countries USA and France over the years 1800,
  1825 and 1850.
\<close>

definition example_state :: app_state where
  "example_state =
     \<lparr>df_pivot =
        [\<lparr>year = 1800, country = ''USA'', gdp = 2000\<rparr>,
         \<lparr>year = 1825, country = ''USA'', gdp = 2500\<rparr>,
         \<lparr>year = 1850, country = ''USA'', gdp = 3000\<rparr>,
         \<lparr>year = 1800, country = ''France'', gdp = 1800\<rparr>,
         \<lparr>year = 1825, country = ''France'', gdp = 2100\<rparr>,
         \<lparr>year = 1850, country = ''France'', gdp = 2600\<rparr>],
      all_countries = 0,
      heap = [[''USA'', ''France'']]\<rparr>"

text \<open>A long frame with one record for every year from \<open>lo\<close> to \<open>hi\<close>.\<close>

definition year_frame :: "int \<Rightarrow> int \<Rightarrow> long_record list" where
  "year_frame lo hi = map (\<lambda>y. \<lparr>year = y, country = ''USA'', gdp = 1000\<rparr>) [lo..hi]"

text \<open>A wide table whose year columns are 1800 and 1900 only.\<close>

definition gap_table :: wide_table where
  "gap_table = \<lparr>year_labels = [''1800'', ''1900''], wide_rows = [(''USA'', [''2000'', ''3k''])]\<rparr>"

text \<open>The wide table of the scenario; start-up turns it into \<open>example_state\<close>.\<close>

definition example_table :: wide_table where
  "example_table =
     \<lparr>year_labels = [''1800'', ''1825'', ''1850''],
      wide_rows = [(''USA'', [''2k'', ''2.5k'', ''3000'']),
                   (''France'', [''1800'', ''2.1k'', ''2.6k''])]\<rparr>"

text \<open>A wide table whose year columns are not in ascending order, and its state.\<close>

definition unsorted_table :: wide_table where
  "unsorted_table = \<lparr>year_labels = [''1850'', ''1800''], wide_rows = [(''USA'', [''3000'', ''2k''])]\<rparr>"

definition unsorted_state :: app_state where
  "unsorted_state =
     \<lparr>df_pivot = [\<lparr>year = 1850, country = ''USA'', gdp = 3000\<rparr>,
                  \<lparr>year = 1800, country = ''USA'', gdp = 2000\<rparr>],
      all_countries = 0, heap = [[''USA'']]\<rparr>"

section \<open>Facts about \<open>unique\<close>\<close>

lemma set_unique [simp]: "set (unique xs) = set xs"
  by (induction xs rule: unique.induct) auto

lemma distinct_unique [simp]: "distinct (unique xs)"
  by (induction xs rule: unique.induct) auto

lemma unique_distinct: "distinct xs \<Longrightarrow> unique xs = xs"
  by (induction xs) (auto simp: removeAll_id)

section \<open>Facts about the two loops\<close>

lemma drop_countries_filter:
  "drop_countries cs t = filter (\<lambda>r. country r \<notin> set cs) t"
  by (induction cs arbitrary: t) (auto intro: filter_cong)

lemma list_remove_Inr:
  "list_remove r x h = Inr h' \<longleftrightarrow> x \<in> set (h ! r) \<and> h' = h[r := remove1 x (h ! r)]"
  by (auto simp: list_remove_def)

lemma remove_each_length:
  "remove_each r cs h = (res, h') \<Longrightarrow> length h' = length h"
proof (induction cs arbitrary: h)
  case Nil
  then show ?case by simp
next
  case (Cons c cs)
  then show ?case
    by (auto simp: list_remove_def split: if_splits)
qed

lemma remove_each_frame:
  "remove_each r cs h = (res, h') \<Longrightarrow> a \<noteq> r \<Longrightarrow> h' ! a = h ! a"
proof (induction cs arbitrary: h)
  case Nil
  then show ?case by simp
next
  case (Cons c cs)
  then show ?case
    by (auto simp: list_remove_def split: if_splits)
qed

lemma remove_each_ok:
  "distinct cs \<Longrightarrow> set cs \<subseteq> set (h ! r) \<Longrightarrow> r < length h \<Longrightarrow> distinct (h ! r) \<Longrightarrow>
   remove_each r cs h = (Inr (), h[r := filter (\<lambda>x. x \<notin> set cs) (h ! r)])"
proof (induction cs arbitrary: h)
  case Nil
  then show ?case by simp
next
  case (Cons c cs)
  let ?h1 = "h[r := remove1 c (h ! r)]"
  have c: "c \<in> set (h ! r)" and nc: "c \<notin> set cs" using Cons.prems by auto
  have r1: "?h1 ! r = remove1 c (h ! r)" using Cons.prems by simp
  have rm: "remove1 c (h ! r) = filter (\<lambda>x. x \<noteq> c) (h ! r)"
    using Cons.prems(4) by (induction "h ! r") (auto simp: distinct_remove1_removeAll removeAll_filter_not_eq intro: filter_cong)
  have "remove_each r cs ?h1 = (Inr (), ?h1[r := filter (\<lambda>x. x \<notin> set cs) (?h1 ! r)])"
  proof (rule Cons.IH)
    show "distinct cs" using Cons.prems by simp
    show "set cs \<subseteq> set (?h1 ! r)" using Cons.prems nc by (auto simp: r1)
    show "r < length ?h1" using Cons.prems by simp
    show "distinct (?h1 ! r)" using Cons.prems by (simp add: r1)
  qed
  moreover have "filter (\<lambda>x. x \<notin> set cs) (?h1 ! r) = filter (\<lambda>x. x \<notin> set (c # cs)) (h ! r)"
  proof -
    have "filter (\<lambda>x. x \<notin> set cs) (?h1 ! r) = filter (\<lambda>x. x \<notin> set cs) (filter (\<lambda>x. x \<noteq> c) (h ! r))"
      by (subst r1) (simp only: rm)
    also have "\<dots> = filter (\<lambda>x. x \<notin> set (c # cs)) (h ! r)"
      by (auto intro: filter_cong)
    finally show ?thesis .
  qed
  ultimately show ?case using c by (simp add: list_remove_def)
qed

lemma remove_each_Inr_D:
  "remove_each r cs h = (Inr u, h') \<Longrightarrow> r < length h \<Longrightarrow> distinct (h ! r) \<Longrightarrow>
   distinct cs \<and> set cs \<subseteq> set (h ! r)"
proof (induction cs arbitrary: h)
  case Nil
  then show ?case by simp
next
  case (Cons c cs)
  let ?h1 = "h[r := remove1 c (h ! r)]"
  from Cons.prems(1) have c: "c \<in> set (h ! r)" and rest: "remove_each r cs ?h1 = (Inr u, h')"
    by (auto simp: list_remove_def split: if_splits)
  have r1: "?h1 ! r = remove1 c (h ! r)" using Cons.prems by simp
  have "distinct cs \<and> set cs \<subseteq> set (?h1 ! r)"
    using rest Cons.prems by (intro Cons.IH) (simp_all add: r1)
  then show ?case using c Cons.prems(3) by (auto simp: r1)
qed

lemma remove_each_error:
  "remove_each r cs h = (Inl e, h') \<Longrightarrow> e = ValueError"
  by (induction cs arbitrary: h) (auto simp: list_remove_def split: if_splits)

lemma country_step_ok:
  assumes wf: "wf_state s" and d: "distinct cs" and sub: "set cs \<subseteq> set (country_list s)"
    and t: "\<forall>r \<in> set t. country r \<in> set (country_list s)"
  shows "country_step cs t s =
           (Inr (filter (\<lambda>r. country r \<in> set cs) t),
            s\<lparr>heap := heap s @ [filter (\<lambda>x. x \<notin> set cs) (country_list s)]\<rparr>)"
proof -
  let ?h1 = "heap s @ [country_list s]"
  let ?r = "length (heap s)"
  have r1: "?h1 ! ?r = country_list s" by simp
  have "remove_each ?r cs ?h1 = (Inr (), ?h1[?r := filter (\<lambda>x. x \<notin> set cs) (?h1 ! ?r)])"
    using wf d sub by (intro remove_each_ok) (simp_all add: wf_state_def)
  then have re: "remove_each ?r cs ?h1 = (Inr (), heap s @ [filter (\<lambda>x. x \<notin> set cs) (country_list s)])"
    by simp
  have "drop_countries (filter (\<lambda>x. x \<notin> set cs) (country_list s)) t =
        filter (\<lambda>r. country r \<in> set cs) t"
    using t by (auto simp: drop_countries_filter intro: filter_cong)
  then show ?thesis
    using re by (simp add: country_step_def list_copy_def country_list_def)
qed

lemma country_step_fail:
  assumes wf: "wf_state s" and bad: "\<not> (distinct cs \<and> set cs \<subseteq> set (country_list s))"
  shows "fst (country_step cs t s) = Inl ValueError"
proof -
  let ?h1 = "heap s @ [country_list s]"
  let ?r = "length (heap s)"
  obtain res h2 where re: "remove_each ?r cs ?h1 = (res, h2)" by (cases "remove_each ?r cs ?h1")
  have "res = Inl ValueError"
  proof (cases res)
    case (Inl e)
    then show ?thesis using re remove_each_error by blast
  next
    case (Inr u)
    have "distinct cs \<and> set cs \<subseteq> set (?h1 ! ?r)"
      by (rule remove_each_Inr_D[OF re[unfolded Inr]]) (use wf in \<open>simp_all add: wf_state_def\<close>)
    then show ?thesis using bad by simp
  qed
  then show ?thesis
    using re by (simp add: country_step_def list_copy_def country_list_def)
qed

lemma country_step_frame:
  assumes "all_countries s < length (heap s)" and "country_step cs t s = (res, s')"
  shows "df_pivot s' = df_pivot s \<and> all_countries s' = all_countries s \<and>
         length (heap s) \<le> length (heap s') \<and> (\<forall>a < length (heap s). heap s' ! a = heap s ! a)"
proof -
  let ?h1 = "heap s @ [heap s ! all_countries s]"
  let ?r = "length (heap s)"
  obtain u h2 where re: "remove_each ?r cs ?h1 = (u, h2)" by (cases "remove_each ?r cs ?h1")
  have len: "length h2 = Suc (length (heap s))" using remove_each_length[OF re] by simp
  have fr: "\<forall>a < length (heap s). h2 ! a = heap s ! a"
    using remove_each_frame[OF re] by (auto simp: nth_append)
  have "s' = s\<lparr>heap := h2\<rparr>"
    using assms(2) re by (auto simp: country_step_def list_copy_def split: sum.splits)
  then show ?thesis using len fr by simp
qed

section \<open>The callback: what it returns and what it leaves alone\<close>

lemma update_figure_pair:
  "update_figure [lo, hi] cs s =
     country_step cs (filter (\<lambda>r. lo \<le> year r \<and> year r \<le> hi) (df_pivot s)) s"
  by (simp add: update_figure_def conj_commute)

lemma wf_example_state: "wf_state example_state"
  by (simp add: wf_state_def example_state_def country_list_def)

text \<open>
  Claim C1. For a state as start-up leaves it and a selection whose countries are distinct
  names of \<open>all_countries\<close>, the callback returns exactly the records of \<open>df_pivot\<close> with
  \<open>low \<le> year \<le> high\<close> and a selected country, each once and in the order of the frame,
  and no others. The bounds need not be ordered for this.
\<close>

theorem update_figure_exact:
  assumes "wf_state s" and "distinct countries" and "set countries \<subseteq> set (country_list s)"
  shows "fst (update_figure [lo, hi] countries s) =
           Inr (filter (\<lambda>r. lo \<le> year r \<and> year r \<le> hi \<and> country r \<in> set countries) (df_pivot s))"
proof -
  have "\<forall>r \<in> set (filter (\<lambda>r. lo \<le> year r \<and> year r \<le> hi) (df_pivot s)). country r \<in> set (country_list s)"
    using assms(1) by (simp add: wf_state_def)
  from country_step_ok[OF assms this] show ?thesis
    by (simp add: update_figure_pair conj_assoc)
qed

theorem update_figure_exact_witness:
  "wf_state example_state \<and> distinct [''USA''] \<and> set [''USA''] \<subseteq> set (country_list example_state) \<and>
   fst (update_figure [1800, 1825] [''USA''] example_state) =
     Inr [\<lparr>year = 1800, country = ''USA'', gdp = 2000\<rparr>, \<lparr>year = 1825, country = ''USA'', gdp = 2500\<rparr>]"
proof -
  have h1: "wf_state example_state" by (rule wf_example_state)
  have h2: "distinct [''USA'']" by simp
  have h3: "set [''USA''] \<subseteq> set (country_list example_state)"
    by (simp add: example_state_def country_list_def)
  show ?thesis
    using h1 h2 h3 update_figure_exact[OF h1 h2 h3, of 1800 1825]
    by (simp add: example_state_def)
qed


lemma update_figure_frame_aux:
  assumes "all_countries s < length (heap s)" and "update_figure yr cs s = (res, s')"
  shows "df_pivot s' = df_pivot s \<and> all_countries s' = all_countries s \<and>
         length (heap s) \<le> length (heap s') \<and> (\<forall>a < length (heap s). heap s' ! a = heap s ! a)"
proof (cases yr)
  case Nil
  then show ?thesis using assms(2) by (simp add: update_figure_def)
next
  case (Cons lo rest)
  show ?thesis
  proof (cases rest)
    case Nil
    then show ?thesis using assms(2) Cons by (simp add: update_figure_def)
  next
    case (Cons hi more)
    then have "country_step cs (filter (\<lambda>r. year r \<le> hi) (filter (\<lambda>r. lo \<le> year r) (df_pivot s))) s = (res, s')"
      using assms(2) \<open>yr = lo # rest\<close> by (simp add: update_figure_def)
    from country_step_frame[OF assms(1) this] show ?thesis .
  qed
qed

lemma update_figure_country_list:
  assumes "all_countries s < length (heap s)"
  shows "country_list (snd (update_figure yr cs s)) = country_list s"
proof -
  obtain res s' where u: "update_figure yr cs s = (res, s')" by (cases "update_figure yr cs s")
  from update_figure_frame_aux[OF assms u] assms show ?thesis
    by (simp add: u country_list_def)
qed

text \<open>
  Claim C6. For every frame whose countries are names of \<open>all_countries\<close> and every
  selection of distinct such names, the exclusion loops of the code (copy the list, remove
  the selected names, drop every record of a remaining name) return the frame that direct
  inclusion filtering returns.
\<close>

theorem exclusion_equals_inclusion:
  assumes "wf_state s" and "distinct countries" and "set countries \<subseteq> set (country_list s)"
    and "\<forall>r \<in> set t. country r \<in> set (country_list s)"
  shows "fst (country_step countries t s) = Inr (inclusion_filter (set countries) t)"
  using country_step_ok[OF assms] by (simp add: inclusion_filter_def)

theorem exclusion_equals_inclusion_witness:
  "wf_state example_state \<and> distinct [''France''] \<and>
   set [''France''] \<subseteq> set (country_list example_state) \<and>
   country ` set (df_pivot example_state) \<subseteq> set (country_list example_state) \<and>
   fst (country_step [''France''] (df_pivot example_state) example_state) =
     Inr (inclusion_filter (set [''France'']) (df_pivot example_state)) \<and>
   inclusion_filter (set [''France'']) (df_pivot example_state) =
     [\<lparr>year = 1800, country = ''France'', gdp = 1800\<rparr>,
      \<lparr>year = 1825, country = ''France'', gdp = 2100\<rparr>,
      \<lparr>year = 1850, country = ''France'', gdp = 2600\<rparr>]"
proof -
  have h1: "wf_state example_state" by (rule wf_example_state)
  have h2: "distinct [''France'']" by simp
  have h3: "set [''France''] \<subseteq> set (country_list example_state)"
    by (simp add: example_state_def country_list_def)
  have h4: "\<forall>r \<in> set (df_pivot example_state). country r \<in> set (country_list example_state)"
    by (simp add: example_state_def country_list_def)
  have "inclusion_filter (set [''France'']) (df_pivot example_state) =
     [\<lparr>year = 1800, country = ''France'', gdp = 1800\<rparr>,
      \<lparr>year = 1825, country = ''France'', gdp = 2100\<rparr>,
      \<lparr>year = 1850, country = ''France'', gdp = 2600\<rparr>]"
    by (simp add: inclusion_filter_def example_state_def)
  then show ?thesis
    using h1 h2 h3 h4 exclusion_equals_inclusion[OF h1 h2 h3 h4] by (simp add: image_subset_iff)
qed

text \<open>
  Claim C5. With a set of selected countries (a list without repetition), the callback
  fails, with the \<open>ValueError\<close> of \<open>list.remove\<close>, if and only if some supplied name is
  not in \<open>all_countries\<close>, and returns a frame otherwise; \<open>df_pivot\<close> and the list
  \<open>all_countries\<close> are as before the call either way; the empty selection is accepted
  and gives the empty frame.
\<close>

theorem unknown_country_iff:
  assumes "wf_state s" and "distinct countries"
  shows "(fst (update_figure [lo, hi] countries s) = Inl ValueError
            \<longleftrightarrow> (\<exists>c \<in> set countries. c \<notin> set (country_list s))) \<and>
         (\<not> isl (fst (update_figure [lo, hi] countries s))
            \<longleftrightarrow> set countries \<subseteq> set (country_list s)) \<and>
         df_pivot (snd (update_figure [lo, hi] countries s)) = df_pivot s \<and>
         country_list (snd (update_figure [lo, hi] countries s)) = country_list s \<and>
         fst (update_figure [lo, hi] [] s) = Inr []"
proof -
  let ?t = "filter (\<lambda>r. lo \<le> year r \<and> year r \<le> hi) (df_pivot s)"
  have t: "\<forall>r \<in> set ?t. country r \<in> set (country_list s)"
    using assms(1) by (simp add: wf_state_def)
  have v: "all_countries s < length (heap s)" using assms(1) by (simp add: wf_state_def)
  have a: "fst (update_figure [lo, hi] countries s) = Inl ValueError"
    if "\<not> set countries \<subseteq> set (country_list s)"
    using country_step_fail[OF assms(1), of countries ?t] that by (simp add: update_figure_pair)
  have b: "fst (update_figure [lo, hi] countries s) = Inr (filter (\<lambda>r. country r \<in> set countries) ?t)"
    if "set countries \<subseteq> set (country_list s)"
    using country_step_ok[OF assms that t] by (simp add: update_figure_pair)
  have c: "fst (update_figure [lo, hi] [] s) = Inr []"
    using country_step_ok[OF assms(1) _ _ t, of "[]"] by (simp add: update_figure_pair)
  obtain res s' where u: "update_figure [lo, hi] countries s = (res, s')"
    by (cases "update_figure [lo, hi] countries s")
  have d: "df_pivot (snd (update_figure [lo, hi] countries s)) = df_pivot s"
    using update_figure_frame_aux[OF v u] by (simp add: u)
  have e: "country_list (snd (update_figure [lo, hi] countries s)) = country_list s"
    by (rule update_figure_country_list[OF v])
  show ?thesis
  proof (cases "set countries \<subseteq> set (country_list s)")
    case True
    then show ?thesis using b c d e by auto
  next
    case False
    then show ?thesis using a c d e by auto
  qed
qed

theorem unknown_country_iff_witness:
  "wf_state example_state \<and> distinct [''Atlantis''] \<and>
   fst (update_figure [1800, 1850] [''Atlantis''] example_state) = Inl ValueError \<and>
   ''Atlantis'' \<notin> set (country_list example_state) \<and>
   df_pivot (snd (update_figure [1800, 1850] [''Atlantis''] example_state)) = df_pivot example_state \<and>
   country_list (snd (update_figure [1800, 1850] [''Atlantis''] example_state)) = [''USA'', ''France''] \<and>
   fst (update_figure [1800, 1850] [] example_state) = Inr []"
proof -
  have h1: "wf_state example_state" by (rule wf_example_state)
  have h2: "distinct [''Atlantis'']" by simp
  have h3: "country_list example_state = [''USA'', ''France'']"
    by (simp add: example_state_def country_list_def)
  show ?thesis
    using h1 h2 unknown_country_iff[OF h1 h2, of 1800 1850] by (simp add: h3)
qed

text \<open>
  Claim C4, as the code has it. For bounds with \<open>low > high\<close> and selected countries that
  are distinct names of \<open>all_countries\<close> the callback raises no error: it returns the empty
  frame, and \<open>df_pivot\<close> and the list \<open>all_countries\<close> are unchanged.
\<close>

theorem crossed_range_empty:
  assumes "wf_state s" and "distinct countries" and "set countries \<subseteq> set (country_list s)"
    and "hi < lo"
  shows "fst (update_figure [lo, hi] countries s) = Inr [] \<and>
         df_pivot (snd (update_figure [lo, hi] countries s)) = df_pivot s \<and>
         country_list (snd (update_figure [lo, hi] countries s)) = country_list s"
proof -
  have e: "filter (\<lambda>r. lo \<le> year r \<and> year r \<le> hi) (df_pivot s) = []"
    using assms(4) by (auto simp: filter_empty_conv)
  have v: "all_countries s < length (heap s)" using assms(1) by (simp add: wf_state_def)
  have "country_step countries [] s =
          (Inr (filter (\<lambda>r. country r \<in> set countries) []),
           s\<lparr>heap := heap s @ [filter (\<lambda>x. x \<notin> set countries) (country_list s)]\<rparr>)"
    by (rule country_step_ok[OF assms(1-3)]) simp
  then have "update_figure [lo, hi] countries s =
          (Inr [], s\<lparr>heap := heap s @ [filter (\<lambda>x. x \<notin> set countries) (country_list s)]\<rparr>)"
    by (simp add: update_figure_pair e)
  then show ?thesis using v by (simp add: country_list_def nth_append)
qed

theorem crossed_range_empty_witness:
  "wf_state example_state \<and> distinct [''USA'', ''France''] \<and>
   set [''USA'', ''France''] \<subseteq> set (country_list example_state) \<and> (1890::int) < 1900 \<and>
   fst (update_figure [1900, 1890] [''USA'', ''France''] example_state) = Inr [] \<and>
   df_pivot (snd (update_figure [1900, 1890] [''USA'', ''France''] example_state)) = df_pivot example_state \<and>
   country_list (snd (update_figure [1900, 1890] [''USA'', ''France''] example_state)) = [''USA'', ''France'']"
proof -
  have h1: "wf_state example_state" by (rule wf_example_state)
  have h2: "distinct [''USA'', ''France'']" by simp
  have c: "country_list example_state = [''USA'', ''France'']"
    by (simp add: example_state_def country_list_def)
  have h3: "set [''USA'', ''France''] \<subseteq> set (country_list example_state)" by (simp add: c)
  have h4: "(1890::int) < 1900" by simp
  show ?thesis
    using h1 h2 h3 crossed_range_empty[OF h1 h2 h3 h4] by (simp add: c)
qed

text \<open>
  The callback has no check of the bounds: with the range \<open>[1900, 1890]\<close> it returns the
  empty frame and raises nothing.
\<close>

theorem range_not_validated_counterexample:
  "(1890::int) < 1900 \<and>
   fst (update_figure [1900, 1890] [''USA''] example_state) = Inr [] \<and>
   \<not> isl (fst (update_figure [1900, 1890] [''USA''] example_state))"
  by (simp add: update_figure_def country_step_def list_copy_def list_remove_def example_state_def)

text \<open>
  Claim C7. Filtering is monotone in the selection: if the second year range contains the
  first and the second set of countries contains the first, both calls return a frame and
  every record returned for the first selection is returned for the second.
\<close>

theorem filter_monotone:
  assumes "wf_state s" and "distinct cs1" and "distinct cs2"
    and "set cs1 \<subseteq> set cs2" and "set cs2 \<subseteq> set (country_list s)"
    and "lo2 \<le> lo1" and "hi1 \<le> hi2"
  shows "\<exists>res1 res2.
           fst (update_figure [lo1, hi1] cs1 s) = Inr res1 \<and>
           fst (update_figure [lo2, hi2] cs2 s) = Inr res2 \<and>
           set res1 \<subseteq> set res2"
proof -
  let ?t1 = "filter (\<lambda>r. lo1 \<le> year r \<and> year r \<le> hi1) (df_pivot s)"
  let ?t2 = "filter (\<lambda>r. lo2 \<le> year r \<and> year r \<le> hi2) (df_pivot s)"
  have s1: "set cs1 \<subseteq> set (country_list s)" using assms(4,5) by blast
  have t1: "\<forall>r \<in> set ?t1. country r \<in> set (country_list s)"
    and t2: "\<forall>r \<in> set ?t2. country r \<in> set (country_list s)"
    using assms(1) by (simp_all add: wf_state_def)
  have r1: "fst (update_figure [lo1, hi1] cs1 s) = Inr (filter (\<lambda>r. country r \<in> set cs1) ?t1)"
    using country_step_ok[OF assms(1,2) s1 t1] by (simp add: update_figure_pair)
  have r2: "fst (update_figure [lo2, hi2] cs2 s) = Inr (filter (\<lambda>r. country r \<in> set cs2) ?t2)"
    using country_step_ok[OF assms(1,3,5) t2] by (simp add: update_figure_pair)
  have "set (filter (\<lambda>r. country r \<in> set cs1) ?t1) \<subseteq> set (filter (\<lambda>r. country r \<in> set cs2) ?t2)"
    using assms(4,6,7) by auto
  then show ?thesis using r1 r2 by blast
qed

theorem filter_monotone_witness:
  "wf_state example_state \<and> distinct [''USA''] \<and> distinct [''France'', ''USA''] \<and>
   set [''USA''] \<subseteq> set [''France'', ''USA''] \<and>
   set [''France'', ''USA''] \<subseteq> set (country_list example_state) \<and>
   (1800::int) \<le> 1825 \<and> (1825::int) \<le> 1850 \<and>
   (\<exists>res1 res2.
      fst (update_figure [1825, 1825] [''USA''] example_state) = Inr res1 \<and>
      fst (update_figure [1800, 1850] [''France'', ''USA''] example_state) = Inr res2 \<and>
      set res1 \<subseteq> set res2)"
proof -
  have h1: "wf_state example_state" by (rule wf_example_state)
  have h2: "distinct [''USA'']" by simp
  have h3: "distinct [''France'', ''USA'']" by simp
  have h4: "set [''USA''] \<subseteq> set [''France'', ''USA'']" by simp
  have h5: "set [''France'', ''USA''] \<subseteq> set (country_list example_state)"
    by (simp add: example_state_def country_list_def)
  have h6: "(1800::int) \<le> 1825" by simp
  have h7: "(1825::int) \<le> 1850" by simp
  from filter_monotone[OF h1 h2 h3 h4 h5 h6 h7] h1 h2 h3 h4 h5 h6 h7 show ?thesis by blast
qed

text \<open>
  Claim C10. Whatever \<open>year_range\<close> and \<open>countries\<close> are, and whether the call returns or
  raises, it leaves \<open>df_pivot\<close>, the name \<open>all_countries\<close> and the list it names as they
  were, and no list object that existed before the call is changed: the removals work on a
  copy at a fresh address.
\<close>

theorem update_figure_frame:
  assumes "all_countries s < length (heap s)"
  shows "df_pivot (snd (update_figure year_range countries s)) = df_pivot s \<and>
         all_countries (snd (update_figure year_range countries s)) = all_countries s \<and>
         country_list (snd (update_figure year_range countries s)) = country_list s \<and>
         (\<forall>a < length (heap s). heap (snd (update_figure year_range countries s)) ! a = heap s ! a)"
proof -
  obtain res s' where u: "update_figure year_range countries s = (res, s')"
    by (cases "update_figure year_range countries s")
  from update_figure_frame_aux[OF assms u] assms show ?thesis
    by (simp add: u country_list_def)
qed

theorem update_figure_frame_witness:
  "all_countries example_state < length (heap example_state) \<and>
   df_pivot (snd (update_figure [1800, 1825] [''USA''] example_state)) = df_pivot example_state \<and>
   all_countries (snd (update_figure [1800, 1825] [''USA''] example_state)) = 0 \<and>
   country_list (snd (update_figure [1800, 1825] [''USA''] example_state)) = [''USA'', ''France''] \<and>
   heap (snd (update_figure [1800, 1825] [''USA''] example_state)) = [[''USA'', ''France''], [''France'']]"
proof -
  have h: "all_countries example_state < length (heap example_state)"
    by (simp add: example_state_def)
  have c: "country_list example_state = [''USA'', ''France'']"
    by (simp add: example_state_def country_list_def)
  have a: "all_countries example_state = 0"
    by (simp add: example_state_def)
  have hp: "heap (snd (update_figure [1800, 1825] [''USA''] example_state)) = [[''USA'', ''France''], [''France'']]"
    by (simp add: update_figure_def country_step_def list_copy_def list_remove_def example_state_def)
  show ?thesis
    using h hp update_figure_frame[OF h, of "[1800, 1825]" "[''USA'']"] by (simp add: c a)
qed

section \<open>The tick marks\<close>

lemma reshape_gap_table:
  "reshape [] gap_table =
     Inr [\<lparr>year = 1800, country = ''USA'', gdp = 2000\<rparr>, \<lparr>year = 1900, country = ''USA'', gdp = 3000\<rparr>]"
  by (simp add: reshape_def gap_table_def melt_def reserved_names_def str_to_int_def eval_simps)

lemma filter_removeAll_commute: "filter P (removeAll x xs) = removeAll x (filter P xs)"
  by (induction xs) auto

lemma filter_unique: "filter P (unique xs) = unique (filter P xs)"
proof (induction xs rule: unique.induct)
  case 1
  then show ?case by simp
next
  case (2 x xs)
  have "removeAll x (filter P xs) = filter P xs" if "\<not> P x"
    using that by (simp add: removeAll_id)
  then show ?case using 2 by (simp add: filter_removeAll_commute)
qed

text \<open>
  Claim C9, as the code has it. \<open>mark_years\<close> is computed from the data set, not from two
  bounds: it holds exactly the years that occur in \<open>df_pivot\<close> and are divisible by 25,
  each once, in the order of their first appearance in the \<open>year\<close> column. When the years
  of the data set are exactly those from \<open>low\<close> to \<open>high\<close>, it is the set of the years
  \<open>y\<close> with \<open>low \<le> y \<le> high\<close> and \<open>y mod 25 = 0\<close>, and in their order when the data set
  has them in ascending order. In particular the years 1800 to 1900 give
  \<open>[1800, 1825, 1850, 1875, 1900]\<close>, and the years 1801 to 1824 give the empty sequence,
  with no error.
\<close>

theorem mark_years_dataset:
  "mark_years t = unique (filter (\<lambda>y. y mod 25 = 0) (map year t)) \<and>
   set (mark_years t) = {y \<in> year ` set t. y mod 25 = 0} \<and>
   distinct (mark_years t) \<and>
   (year ` set t = {low..high} \<longrightarrow>
      set (mark_years t) = {y. low \<le> y \<and> y \<le> high \<and> y mod 25 = 0}) \<and>
   (unique_years t = [low..high] \<longrightarrow>
      mark_years t = filter (\<lambda>y. y mod 25 = 0) [low..high])"
proof -
  have o: "mark_years t = unique (filter (\<lambda>y. y mod 25 = 0) (map year t))"
    by (simp add: mark_years_def unique_years_def filter_unique)
  have r: "set (mark_years t) = {y \<in> year ` set t. y mod 25 = 0} \<and>
   distinct (mark_years t) \<and>
   (year ` set t = {low..high} \<longrightarrow>
      set (mark_years t) = {y. low \<le> y \<and> y \<le> high \<and> y mod 25 = 0}) \<and>
   (unique_years t = [low..high] \<longrightarrow>
      mark_years t = filter (\<lambda>y. y mod 25 = 0) [low..high])"
    by (auto simp: mark_years_def unique_years_def)
  show ?thesis by (rule conjI[OF o r])
qed

theorem mark_years_dataset_witness:
  "unique_years (year_frame 1800 1900) = [1800..1900] \<and>
   mark_years (year_frame 1800 1900) = [1800, 1825, 1850, 1875, 1900] \<and>
   unique_years (year_frame 1801 1824) = [1801..1824] \<and>
   mark_years (year_frame 1801 1824) = [] \<and>
   unique (filter (\<lambda>y. y mod 25 = 0) (map year (df_pivot unsorted_state))) = [1850, 1800] \<and>
   mark_years (df_pivot unsorted_state) = [1850, 1800]"
proof -
  have u: "unique_years (year_frame lo hi) = [lo..hi]" for lo hi
    by (simp add: unique_years_def year_frame_def comp_def unique_distinct)
  have a: "filter (\<lambda>y. y mod 25 = 0) [1800..1900] = [1800, 1825, 1850, 1875, (1900::int)]"
    by (simp add: upto_rec_numeral)
  have b: "filter (\<lambda>y. y mod 25 = 0) [1801..1824] = ([]::int list)"
    by (simp add: upto_rec_numeral)
  have c: "unique (filter (\<lambda>y. y mod 25 = 0) (map year (df_pivot unsorted_state))) = [1850, 1800]"
    by (simp add: unsorted_state_def)
  from mark_years_dataset[of "year_frame 1800 1900" 1800 1900]
  have "unique_years (year_frame 1800 1900) = [1800..1900] \<longrightarrow>
        mark_years (year_frame 1800 1900) = filter (\<lambda>y. y mod 25 = 0) [1800..1900]"
    by blast
  then have m1: "mark_years (year_frame 1800 1900) = [1800, 1825, 1850, 1875, 1900]"
    by (simp only: u a simp_thms)
  from mark_years_dataset[of "year_frame 1801 1824" 1801 1824]
  have "unique_years (year_frame 1801 1824) = [1801..1824] \<longrightarrow>
        mark_years (year_frame 1801 1824) = filter (\<lambda>y. y mod 25 = 0) [1801..1824]"
    by blast
  then have m2: "mark_years (year_frame 1801 1824) = []"
    by (simp only: u b simp_thms)
  from mark_years_dataset[of "df_pivot unsorted_state" 0 0]
  have "mark_years (df_pivot unsorted_state) =
        unique (filter (\<lambda>y. y mod 25 = 0) (map year (df_pivot unsorted_state)))"
    by blast
  then have m3: "mark_years (df_pivot unsorted_state) = [1850, 1800]"
    by (simp only: c)
  show ?thesis using u[of 1800 1900] u[of 1801 1824] c m1 m2 m3 by blast
qed

text \<open>
  A data set with the year columns 1800 and 1900 only: between its bounds lies 1825, a
  multiple of 25, and \<open>mark_years\<close> does not hold it.
\<close>

theorem mark_years_gap_counterexample:
  "map_sum id mark_years (reshape [] gap_table) = Inr [1800, 1900] \<and>
   (1800::int) \<le> 1825 \<and> (1825::int) \<le> 1900 \<and> (1825::int) mod 25 = 0 \<and>
   1825 \<notin> set [1800, 1900::int]"
  by (simp add: reshape_gap_table mark_years_def unique_years_def)

section \<open>The reshaped frame\<close>

lemma series_map_Inr:
  "series_map f xs = Inr ys \<longleftrightarrow> list_all2 (\<lambda>x y. f x = Inr y) xs ys"
proof (induction xs arbitrary: ys)
  case Nil
  then show ?case by auto
next
  case (Cons x xs)
  show ?case
  proof (cases "f x")
    case (Inl e)
    then show ?thesis by (auto simp: list_all2_Cons1)
  next
    case (Inr y)
    then show ?thesis
      using Cons.IH by (cases "series_map f xs") (auto simp: list_all2_Cons1)
  qed
qed

lemma gdp_value_Inr:
  "gdp_value scope x = Inr g \<longleftrightarrow> (\<exists>w. pd_eval scope (replace_k x) = Inr w \<and> astype_int w = Inr g)"
  by (auto simp: gdp_value_def split: sum.splits)

lemma reshape_Inr:
  "reshape scope df = Inr t \<longleftrightarrow>
     \<not> list_ex (\<lambda>c. c \<in> set reserved_names) (unique (map fst (wide_rows df))) \<and>
     list_all2 (row_ok scope) (melt df (unique (map fst (wide_rows df)))) t"
  (is "?L \<longleftrightarrow> ?N \<and> ?R")
proof
  let ?m = "melt df (unique (map fst (wide_rows df)))"
  assume ?L
  then have n: ?N by (auto simp: reshape_def Let_def split: if_splits)
  from \<open>?L\<close> n obtain vals gdps years where
    v: "list_all2 (\<lambda>x w. pd_eval scope x = Inr w) (map (\<lambda>(y, c, v). replace_k v) ?m) vals" and
    g: "list_all2 (\<lambda>w g. astype_int w = Inr g) vals gdps" and
    y: "list_all2 (\<lambda>l yr. str_to_int l = Inr yr) (map (\<lambda>(y, c, v). y) ?m) years" and
    t: "t = map (\<lambda>((y, c, v), g, yr). \<lparr>year = yr, country = c, gdp = g\<rparr>) (zip ?m (zip gdps years))"
    by (auto simp: reshape_def Let_def series_map_Inr split: if_splits sum.splits)
  have lv: "length vals = length ?m" using v by (auto dest: list_all2_lengthD)
  have lg: "length gdps = length ?m" using g lv by (auto dest: list_all2_lengthD)
  have ly: "length years = length ?m" using y by (auto dest: list_all2_lengthD)
  have "list_all2 (row_ok scope) ?m t"
  proof (rule list_all2_all_nthI)
    show "length ?m = length t" using t lg ly by simp
  next
    fix i assume i: "i < length ?m"
    obtain l c x where m: "?m ! i = (l, c, x)" by (cases "?m ! i") auto
    have ti: "t ! i = \<lparr>year = years ! i, country = c, gdp = gdps ! i\<rparr>"
      using t i lg ly m by simp
    have "pd_eval scope (replace_k x) = Inr (vals ! i)"
      using list_all2_nthD[OF v, of i] i m by simp
    moreover have "astype_int (vals ! i) = Inr (gdps ! i)"
      using list_all2_nthD[OF g, of i] i lv by simp
    moreover have "str_to_int l = Inr (years ! i)"
      using list_all2_nthD[OF y, of i] i m by simp
    ultimately show "row_ok scope (?m ! i) (t ! i)"
      by (auto simp: row_ok_def m ti gdp_value_Inr)
  qed
  with n show "?N \<and> ?R" by simp
next
  let ?m = "melt df (unique (map fst (wide_rows df)))"
  assume nr: "?N \<and> ?R"
  then have r: "list_all2 (row_ok scope) ?m t" by simp
  define vals where "vals = map (\<lambda>(y, c, v). projr (pd_eval scope (replace_k v))) ?m"
  have len: "length ?m = length t" using r by (rule list_all2_lengthD)
  have ok: "row_ok scope (?m ! i) (t ! i)" if "i < length ?m" for i
    using list_all2_nthD[OF r that] .
  have v: "list_all2 (\<lambda>x w. pd_eval scope x = Inr w) (map (\<lambda>(y, c, v). replace_k v) ?m) vals"
  proof (rule list_all2_all_nthI)
    show "length (map (\<lambda>(y, c, v). replace_k v) ?m) = length vals" by (simp add: vals_def)
  next
    fix i assume "i < length (map (\<lambda>(y, c, v). replace_k v) ?m)"
    then have i: "i < length ?m" by simp
    obtain l c x where m: "?m ! i = (l, c, x)" by (cases "?m ! i") auto
    from ok[OF i] obtain w where "pd_eval scope (replace_k x) = Inr w"
      by (auto simp: row_ok_def m gdp_value_Inr)
    then show "pd_eval scope (map (\<lambda>(y, c, v). replace_k v) ?m ! i) = Inr (vals ! i)"
      using i m by (simp add: vals_def)
  qed
  have g: "list_all2 (\<lambda>w g. astype_int w = Inr g) vals (map gdp t)"
  proof (rule list_all2_all_nthI)
    show "length vals = length (map gdp t)" by (simp add: vals_def len)
  next
    fix i assume "i < length vals"
    then have i: "i < length ?m" by (simp add: vals_def)
    obtain l c x where m: "?m ! i = (l, c, x)" by (cases "?m ! i") auto
    from ok[OF i] show "astype_int (vals ! i) = Inr (map gdp t ! i)"
      using i m len by (auto simp: row_ok_def gdp_value_Inr vals_def)
  qed
  have y: "list_all2 (\<lambda>l yr. str_to_int l = Inr yr) (map (\<lambda>(y, c, v). y) ?m) (map year t)"
  proof (rule list_all2_all_nthI)
    show "length (map (\<lambda>(y, c, v). y) ?m) = length (map year t)" by (simp add: len)
  next
    fix i assume "i < length (map (\<lambda>(y, c, v). y) ?m)"
    then have i: "i < length ?m" by simp
    obtain l c x where m: "?m ! i = (l, c, x)" by (cases "?m ! i") auto
    from ok[OF i] show "str_to_int (map (\<lambda>(y, c, v). y) ?m ! i) = Inr (map year t ! i)"
      using i m len by (auto simp: row_ok_def)
  qed
  have t: "t = map (\<lambda>((y, c, v), g, yr). \<lparr>year = yr, country = c, gdp = g\<rparr>)
                 (zip ?m (zip (map gdp t) (map year t)))"
  proof (rule nth_equalityI)
    show "length t = length (map (\<lambda>((y, c, v), g, yr). \<lparr>year = yr, country = c, gdp = g\<rparr>)
                 (zip ?m (zip (map gdp t) (map year t))))" by (simp add: len)
  next
    fix i assume i: "i < length t"
    obtain l c x where m: "?m ! i = (l, c, x)" by (cases "?m ! i") auto
    have "country (t ! i) = c" using ok[of i] i len m by (simp add: row_ok_def)
    then show "t ! i = map (\<lambda>((y, c, v), g, yr). \<lparr>year = yr, country = c, gdp = g\<rparr>)
                 (zip ?m (zip (map gdp t) (map year t))) ! i"
      using i len m by simp
  qed
  have sv: "series_map (pd_eval scope) (map (\<lambda>(y, c, v). replace_k v) ?m) = Inr vals"
    using v by (simp add: series_map_Inr)
  have sg: "series_map astype_int vals = Inr (map gdp t)"
    using g by (simp add: series_map_Inr)
  have sy: "series_map str_to_int (map (\<lambda>(y, c, v). y) ?m) = Inr (map year t)"
    using y by (simp add: series_map_Inr)
  have "reshape scope df =
          Inr (map (\<lambda>((y, c, v), g, yr). \<lparr>year = yr, country = c, gdp = g\<rparr>)
                 (zip ?m (zip (map gdp t) (map year t))))"
    using nr by (simp add: reshape_def Let_def sv sg sy)
  then show ?L unfolding t[symmetric] .
qed

lemma pick_row:
  assumes "distinct (map fst rs)" and "(c, cells) \<in> set rs"
  shows "concat (map (\<lambda>(name, cells'). if name = c then long_rows labels (c, cells') else []) rs) =
         long_rows labels (c, cells)"
  using assms
proof (induction rs)
  case Nil
  then show ?case by simp
next
  case (Cons r rs)
  obtain n cs where r: "r = (n, cs)" by (cases r)
  show ?case
  proof (cases "n = c")
    case True
    then have "c \<notin> fst ` set rs" using Cons.prems(1) r by simp
    then have none: "\<forall>x \<in> set rs. fst x \<noteq> c" by auto
    have "concat (map (\<lambda>(name, cells'). if name = c then long_rows labels (c, cells') else []) rs) = []"
      using none by (induction rs) auto
    moreover have "cs = cells" using Cons.prems True r none by auto
    ultimately show ?thesis using True r by simp
  next
    case False
    then have "(c, cells) \<in> set rs" using Cons.prems(2) r by auto
    then show ?thesis using Cons.IH Cons.prems(1) False r by simp
  qed
qed

lemma melt_rows:
  assumes "distinct (map fst (wide_rows df))"
  shows "melt df (map fst (wide_rows df)) =
           concat (map (long_rows (year_labels df)) (wide_rows df))"
proof -
  have "melt df vv =
          concat (map (\<lambda>c. concat (map (\<lambda>(name, cells'). if name = c
                    then long_rows (year_labels df) (c, cells') else []) (wide_rows df))) vv)" for vv
    by (simp add: melt_def long_rows_def case_prod_unfold cong: if_cong)
  then have "melt df (map fst (wide_rows df)) =
          concat (map (\<lambda>r. concat (map (\<lambda>(name, cells'). if name = fst r
                    then long_rows (year_labels df) (fst r, cells') else []) (wide_rows df))) (wide_rows df))"
    by (simp add: comp_def)
  also have "\<dots> = concat (map (long_rows (year_labels df)) (wide_rows df))"
  proof -
    have "concat (map (\<lambda>(name, cells'). if name = fst r
                    then long_rows (year_labels df) (fst r, cells') else []) (wide_rows df)) =
          long_rows (year_labels df) r" if "r \<in> set (wide_rows df)" for r
      using pick_row[OF assms, of "fst r" "snd r" "year_labels df"] that by simp
    then show ?thesis by (simp cong: map_cong)
  qed
  finally show ?thesis .
qed

lemma row_ok_long_record_of:
  "row_ok scope m r \<Longrightarrow> r = long_record_of scope m"
  by (simp add: row_ok_def long_record_of_def)

lemma reshape_explicit:
  assumes "reshape scope df = Inr t"
  shows "t = map (long_record_of scope) (melt df (unique (map fst (wide_rows df))))"
proof -
  let ?m = "melt df (unique (map fst (wide_rows df)))"
  have r: "list_all2 (row_ok scope) ?m t" using assms by (simp add: reshape_Inr)
  show ?thesis
  proof (rule nth_equalityI)
    show "length t = length (map (long_record_of scope) ?m)"
      using list_all2_lengthD[OF r] by simp
  next
    fix i assume "i < length t"
    then have i: "i < length ?m" using list_all2_lengthD[OF r] by simp
    from list_all2_nthD[OF r i] show "t ! i = map (long_record_of scope) ?m ! i"
      using i by (simp add: row_ok_long_record_of)
  qed
qed


lemma labels_converted:
  assumes "series_map str_to_int labels = Inr ys"
  shows "ys = map (\<lambda>l. projr (str_to_int l)) labels"
    and "\<forall>l \<in> set labels. str_to_int l = Inr (projr (str_to_int l))"
proof -
  have a: "list_all2 (\<lambda>l y. str_to_int l = Inr y) labels ys"
    using assms by (simp add: series_map_Inr)
  show "ys = map (\<lambda>l. projr (str_to_int l)) labels"
  proof (rule nth_equalityI)
    show "length ys = length (map (\<lambda>l. projr (str_to_int l)) labels)"
      using list_all2_lengthD[OF a] by simp
  next
    fix i assume "i < length ys"
    then have i: "i < length labels" using list_all2_lengthD[OF a] by simp
    from list_all2_nthD[OF a i] show "ys ! i = map (\<lambda>l. projr (str_to_int l)) labels ! i"
      using i by simp
  qed
  show "\<forall>l \<in> set labels. str_to_int l = Inr (projr (str_to_int l))"
    using a by (auto simp: list_all2_conv_all_nth in_set_conv_nth)
qed

lemma product_rows:
  "concat (map (\<lambda>r. map (Pair (fst r)) ys) rows) = List.product (map fst rows) ys"
  by (induction rows) auto

text \<open>The (country, year) column pairs of the frame, for a rectangular table with distinct names.\<close>

lemma melt_keys:
  assumes names: "distinct (map fst (wide_rows df))"
    and rect: "\<forall>r \<in> set (wide_rows df). length (snd r) = length (year_labels df)"
  shows "map (\<lambda>m. (fst (snd m), f (fst m))) (melt df (unique (map fst (wide_rows df)))) =
           List.product (map fst (wide_rows df)) (map f (year_labels df))"
proof -
  have "map (\<lambda>m. (fst (snd m), f (fst m))) (long_rows (year_labels df) r) =
          map (Pair (fst r)) (map f (year_labels df))" if "r \<in> set (wide_rows df)" for r
  proof -
    have "map (\<lambda>m. (fst (snd m), f (fst m))) (long_rows (year_labels df) r) =
            map (\<lambda>p. (fst r, f (fst p))) (zip (year_labels df) (snd r))"
      by (simp add: long_rows_def case_prod_unfold comp_def)
    also have "\<dots> = map (\<lambda>l. (fst r, f l)) (map fst (zip (year_labels df) (snd r)))"
      by (simp add: comp_def)
    also have "map fst (zip (year_labels df) (snd r)) = year_labels df"
      using rect that by simp
    finally show ?thesis by (simp add: comp_def)
  qed
  then have e2: "map (\<lambda>m. (fst (snd m), f (fst m))) (concat (map (long_rows (year_labels df)) (wide_rows df))) =
          concat (map (\<lambda>r. map (Pair (fst r)) (map f (year_labels df))) (wide_rows df))"
    by (simp add: map_concat comp_def cong: map_cong)
  have e1: "melt df (unique (map fst (wide_rows df))) =
          concat (map (long_rows (year_labels df)) (wide_rows df))"
    using names by (simp add: unique_distinct melt_rows)
  show ?thesis unfolding e1 e2 by (rule product_rows)
qed


lemma reshape_example_table:
  "reshape [] example_table = Inr (df_pivot example_state)"
  by (simp add: reshape_def example_table_def example_state_def melt_def reserved_names_def
      str_to_int_def eval_simps)

lemma startup_example_table: "startup [] example_table = Inr example_state"
  by (simp add: startup_def reshape_example_table) (simp add: example_state_def example_table_def)





section \<open>The order of the filter result\<close>

lemma melt_country: "m \<in> set (melt df vv) \<Longrightarrow> fst (snd m) \<in> set vv"
  by (auto simp: melt_def)

lemma startup_wf:
  assumes "startup scope df = Inr s"
  shows "wf_state s"
proof -
  from assms obtain t where t: "reshape scope df = Inr t"
    and s: "s = \<lparr>df_pivot = t, all_countries = 0, heap = [unique (map fst (wide_rows df))]\<rparr>"
    by (auto simp: startup_def split: sum.splits)
  have "country r \<in> set (unique (map fst (wide_rows df)))" if "r \<in> set t" for r
    using that reshape_explicit[OF t] melt_country[of _ df "unique (map fst (wide_rows df))"]
    by (auto simp: long_record_of_def)
  then show ?thesis by (simp add: wf_state_def s country_list_def)
qed

lemma reshape_keys:
  assumes "reshape scope df = Inr t"
    and names: "distinct (map fst (wide_rows df))"
    and rect: "\<forall>r \<in> set (wide_rows df). length (snd r) = length (year_labels df)"
    and labels: "series_map str_to_int (year_labels df) = Inr ys"
  shows "map (\<lambda>x. (country x, year x)) t = List.product (map fst (wide_rows df)) ys"
proof -
  let ?m = "melt df (unique (map fst (wide_rows df)))"
  let ?yr = "\<lambda>l. projr (str_to_int l)"
  have "map (\<lambda>x. (country x, year x)) t = map (\<lambda>m. (fst (snd m), ?yr (fst m))) ?m"
    by (simp add: reshape_explicit[OF assms(1)] long_record_of_def comp_def)
  also have "\<dots> = List.product (map fst (wide_rows df)) (map ?yr (year_labels df))"
    by (rule melt_keys[OF names rect])
  finally show ?thesis using labels_converted(1)[OF labels] by simp
qed

lemma remdups_adj_same_prefix:
  assumes "\<forall>x \<in> set xs. x = n" and "xs \<noteq> []" and "n \<notin> set zs"
  shows "remdups_adj (xs @ zs) = n # remdups_adj zs"
  using assms
proof (induction xs)
  case Nil
  then show ?case by simp
next
  case (Cons a xs)
  have a: "a = n" using Cons.prems(1) by simp
  show ?case
  proof (cases "xs = []")
    case True
    have "remdups_adj (n # zs) = n # remdups_adj zs"
      using Cons.prems(3) by (cases zs) simp_all
    then show ?thesis using True a by simp
  next
    case False
    then obtain xs' where xs: "xs = n # xs'"
      using Cons.prems(1) by (cases xs) simp_all
    have ih: "remdups_adj (xs @ zs) = n # remdups_adj zs"
      using Cons.IH[OF _ False Cons.prems(3)] Cons.prems(1) by simp
    have "remdups_adj ((a # xs) @ zs) = remdups_adj (n # n # (xs' @ zs))"
      by (simp only: a xs append_Cons)
    also have "\<dots> = remdups_adj (n # (xs' @ zs))" by simp
    also have "\<dots> = remdups_adj (xs @ zs)" by (simp only: xs append_Cons)
    finally show ?thesis using ih by simp
  qed
qed

lemma grouped_product:
  assumes "map (\<lambda>x. (country x, year x)) t = List.product ns ys" and "distinct ns"
  shows "distinct (remdups_adj (map country (filter P t))) \<and>
         set (map country (filter P t)) \<subseteq> set ns"
  using assms
proof (induction ns arbitrary: t)
  case Nil
  then show ?case by simp
next
  case (Cons n ns)
  from Cons.prems(1) obtain t1 t2 where t: "t = t1 @ t2"
    and t1: "map (\<lambda>x. (country x, year x)) t1 = map (Pair n) ys"
    and t2: "map (\<lambda>x. (country x, year x)) t2 = List.product ns ys"
    by (auto simp: map_eq_append_conv)
  have ih: "distinct (remdups_adj (map country (filter P t2)))"
    and sub: "set (map country (filter P t2)) \<subseteq> set ns"
    using Cons.IH[OF t2] Cons.prems(2) by auto
  have c1: "\<forall>x \<in> set t1. country x = n"
  proof
    fix x assume "x \<in> set t1"
    then have "(country x, year x) \<in> set (map (\<lambda>x. (country x, year x)) t1)" by force
    then have "(country x, year x) \<in> set (map (Pair n) ys)" by (simp only: t1)
    then show "country x = n" by auto
  qed
  then have all: "\<forall>c \<in> set (map country (filter P t1)). c = n" by auto
  have nn: "n \<notin> set (map country (filter P t2))" using sub Cons.prems(2) by auto
  have "distinct (remdups_adj (map country (filter P t1) @ map country (filter P t2)))"
  proof (cases "map country (filter P t1) = []")
    case True
    then show ?thesis using ih by simp
  next
    case False
    from remdups_adj_same_prefix[OF all False nn] show ?thesis using ih nn by simp
  qed
  moreover have "set (map country (filter P t)) \<subseteq> set (n # ns)"
    using sub c1 t by auto
  ultimately show ?case by (simp add: t)
qed

lemma ascending_product:
  assumes "map (\<lambda>x. (country x, year x)) t = List.product ns ys" and "distinct ns"
    and "sorted_wrt (<) ys"
  shows "sorted_wrt (<) (map year (filter (\<lambda>r. country r = c) t))"
  using assms
proof (induction ns arbitrary: t)
  case Nil
  then show ?case by simp
next
  case (Cons n ns)
  from Cons.prems(1) obtain t1 t2 where t: "t = t1 @ t2"
    and t1: "map (\<lambda>x. (country x, year x)) t1 = map (Pair n) ys"
    and t2: "map (\<lambda>x. (country x, year x)) t2 = List.product ns ys"
    by (auto simp: map_eq_append_conv)
  have ih: "sorted_wrt (<) (map year (filter (\<lambda>r. country r = c) t2))"
    using Cons.IH[OF t2] Cons.prems by simp
  have "map snd (map (\<lambda>x. (country x, year x)) t1) = map snd (map (Pair n) ys)"
    using t1 by simp
  then have y1: "map year t1 = ys" by (simp add: comp_def)
  have c1: "\<forall>x \<in> set t1. country x = n"
  proof
    fix x assume "x \<in> set t1"
    then have "(country x, year x) \<in> set (map (\<lambda>x. (country x, year x)) t1)" by force
    then have "(country x, year x) \<in> set (map (Pair n) ys)" by (simp only: t1)
    then show "country x = n" by auto
  qed
  have c2: "\<forall>x \<in> set t2. country x \<noteq> n"
  proof
    fix x assume "x \<in> set t2"
    then have "(country x, year x) \<in> set (map (\<lambda>x. (country x, year x)) t2)" by force
    then have "(country x, year x) \<in> set (List.product ns ys)" by (simp only: t2)
    then have "country x \<in> set ns" by auto
    then show "country x \<noteq> n" using Cons.prems(2) by auto
  qed
  show ?case
  proof (cases "c = n")
    case True
    have "filter (\<lambda>r. country r = c) t2 = []" using c2 True by (simp add: filter_empty_conv)
    moreover have "filter (\<lambda>r. country r = c) t1 = t1" using c1 True by (simp add: filter_id_conv)
    ultimately show ?thesis using t y1 Cons.prems(3) by simp
  next
    case False
    have "filter (\<lambda>r. country r = c) t1 = []" using c1 False by (auto simp: filter_empty_conv)
    then show ?thesis using t ih by simp
  qed
qed

lemma startup_unsorted_table: "startup [] unsorted_table = Inr unsorted_state"
  by (simp add: startup_def reshape_def unsorted_table_def unsorted_state_def melt_def
      reserved_names_def str_to_int_def eval_simps)

lemma sorted_years_filter:
  "sorted_wrt (<) (map year xs) \<Longrightarrow> sorted_wrt (<) (map year (filter P xs))"
  by (simp add: sorted_wrt_map sorted_wrt_filter)

text \<open>
  Claim C8, as the code has it. Nothing is sorted: the callback returns the selected records
  in the order of \<open>df_pivot\<close>, which is the order of the rows and of the year columns of
  the input table. For a state that start-up builds from a table with distinct country names
  whose year columns are in ascending order, the result is grouped by country (the records
  of one country are contiguous) with the years ascending within each country.
\<close>

theorem filter_result_order:
  assumes start: "startup scope df = Inr s"
    and names: "distinct (map fst (wide_rows df))"
    and rect: "\<forall>r \<in> set (wide_rows df). length (snd r) = length (year_labels df)"
    and labels: "series_map str_to_int (year_labels df) = Inr ys"
    and asc: "sorted_wrt (<) ys"
    and sel: "distinct countries" "set countries \<subseteq> set (country_list s)"
  shows "\<exists>res. fst (update_figure [lo, hi] countries s) = Inr res \<and>
               res = filter (\<lambda>r. lo \<le> year r \<and> year r \<le> hi \<and> country r \<in> set countries)
                       (df_pivot s) \<and>
               grouped_by_country res \<and> years_ascending res"
proof -
  let ?P = "\<lambda>r. lo \<le> year r \<and> year r \<le> hi \<and> country r \<in> set countries"
  let ?res = "filter ?P (df_pivot s)"
  have wf: "wf_state s" by (rule startup_wf[OF start])
  have "\<forall>r \<in> set (filter (\<lambda>r. lo \<le> year r \<and> year r \<le> hi) (df_pivot s)).
          country r \<in> set (country_list s)"
    using wf by (simp add: wf_state_def)
  from country_step_ok[OF wf sel this]
  have r: "fst (update_figure [lo, hi] countries s) = Inr ?res"
    by (simp add: update_figure_pair conj_assoc)
  from start have t: "reshape scope df = Inr (df_pivot s)"
    by (auto simp: startup_def split: sum.splits)
  have keys: "map (\<lambda>x. (country x, year x)) (df_pivot s) = List.product (map fst (wide_rows df)) ys"
    by (rule reshape_keys[OF t names rect labels])
  have g: "grouped_by_country ?res"
    using grouped_product[OF keys names, of ?P] by (simp add: grouped_by_country_def)
  have "sorted_wrt (<) (map year (filter (\<lambda>r. country r = c) ?res))" for c
  proof -
    have "filter (\<lambda>r. country r = c) ?res = filter ?P (filter (\<lambda>r. country r = c) (df_pivot s))"
      by (simp add: conj_commute)
    then show ?thesis
      using sorted_years_filter[OF ascending_product[OF keys names asc, of c], of ?P] by simp
  qed
  then have a: "years_ascending ?res" by (simp add: years_ascending_def)
  show ?thesis using r g a by blast
qed

theorem filter_result_order_witness:
  "startup [] example_table = Inr example_state \<and>
   fst (update_figure [1800, 1850] [''France'', ''USA''] example_state) = Inr (df_pivot example_state) \<and>
   filter (\<lambda>r. 1800 \<le> year r \<and> year r \<le> 1850 \<and> country r \<in> set [''France'', ''USA''])
     (df_pivot example_state) = df_pivot example_state \<and>
   grouped_by_country (df_pivot example_state) \<and> years_ascending (df_pivot example_state)"
proof -
  have h1: "startup [] example_table = Inr example_state" by (rule startup_example_table)
  have h2: "distinct (map fst (wide_rows example_table))" by (simp add: example_table_def)
  have h3: "\<forall>r \<in> set (wide_rows example_table). length (snd r) = length (year_labels example_table)"
    by (simp add: example_table_def)
  have h4: "series_map str_to_int (year_labels example_table) = Inr [1800, 1825, 1850]"
    by (simp add: example_table_def str_to_int_def eval_simps)
  have h5: "sorted_wrt (<) [1800, 1825, 1850 :: int]" by simp
  have h6: "distinct [''France'', ''USA'']" by simp
  have h7: "set [''France'', ''USA''] \<subseteq> set (country_list example_state)"
    by (simp add: example_state_def country_list_def)
  have f: "filter (\<lambda>r. 1800 \<le> year r \<and> year r \<le> 1850 \<and> country r \<in> set [''France'', ''USA''])
     (df_pivot example_state) = df_pivot example_state"
    by (simp add: example_state_def)
  from filter_result_order[OF h1 h2 h3 h4 h5 h6 h7, of 1800 1850]
  show ?thesis using h1 by (simp only: f) simp
qed

text \<open>
  A table whose year columns are 1850, then 1800: the result has the years of the one
  country in that order, not ascending.
\<close>

theorem filter_not_sorted_counterexample:
  "startup [] unsorted_table = Inr unsorted_state \<and>
   fst (update_figure [1800, 1850] [''USA''] unsorted_state) =
     Inr [\<lparr>year = 1850, country = ''USA'', gdp = 3000\<rparr>, \<lparr>year = 1800, country = ''USA'', gdp = 2000\<rparr>] \<and>
   \<not> years_ascending
       [\<lparr>year = 1850, country = ''USA'', gdp = 3000\<rparr>, \<lparr>year = 1800, country = ''USA'', gdp = 2000\<rparr>] \<and>
   \<not> sorted (map year
       [\<lparr>year = 1850, country = ''USA'', gdp = 3000\<rparr>, \<lparr>year = 1800, country = ''USA'', gdp = 2000\<rparr>])"
proof -
  have "fst (update_figure [1800, 1850] [''USA''] unsorted_state) =
     Inr [\<lparr>year = 1850, country = ''USA'', gdp = 3000\<rparr>, \<lparr>year = 1800, country = ''USA'', gdp = 2000\<rparr>]"
    by (simp add: update_figure_def country_step_def list_copy_def list_remove_def unsorted_state_def)
  then show ?thesis
    by (simp add: startup_unsorted_table years_ascending_def)
qed

section \<open>The conversion of a cell\<close>

subsection \<open>Integers are exact as doubles\<close>

lemma bitlen_0 [simp]: "bitlen 0 = 0"
  by (simp add: bitlen.simps)

lemma bitlen_pos: "0 < n \<Longrightarrow> bitlen n = Suc (bitlen (n div 2))"
  by (subst bitlen.simps) simp

lemma bitlen_double: "0 < n \<Longrightarrow> bitlen (2 * n) = Suc (bitlen n)"
  by (subst bitlen.simps) simp

lemma bitlen_mult_pow: "0 < n \<Longrightarrow> bitlen (n * 2 ^ j) = bitlen n + j"
proof (induction j)
  case 0
  then show ?case by simp
next
  case (Suc j)
  have "n * 2 ^ Suc j = 2 * (n * 2 ^ j)" by simp
  moreover have "0 < n * 2 ^ j" using Suc.prems by simp
  ultimately have "bitlen (n * 2 ^ Suc j) = Suc (bitlen (n * 2 ^ j))"
    using bitlen_double by presburger
  then show ?case using Suc by simp
qed

lemma bitlen_1: "bitlen (Suc 0) = Suc 0"
  by (subst bitlen.simps) simp

lemma bitlen_pow: "bitlen (2 ^ j) = Suc j"
  using bitlen_mult_pow[of "Suc 0" j] by (simp add: bitlen_1)

lemma bitlen_upper: "n < 2 ^ bitlen n"
proof (induction n rule: bitlen.induct)
  case (1 n)
  show ?case
  proof (cases "n = 0")
    case True
    then show ?thesis by simp
  next
    case False
    then have "n div 2 < 2 ^ bitlen (n div 2)" using 1 by simp
    then have "n < 2 * 2 ^ bitlen (n div 2)" by linarith
    then show ?thesis using False by (simp add: bitlen_pos)
  qed
qed

lemma bitlen_lower: "0 < n \<Longrightarrow> 2 ^ (bitlen n - 1) \<le> n"
proof (induction n rule: bitlen.induct)
  case (1 n)
  show ?case
  proof (cases "n div 2 = 0")
    case True
    then have "n = 1" using "1.prems" by linarith
    then show ?thesis by (simp add: bitlen_1)
  next
    case False
    then have ih: "2 ^ (bitlen (n div 2) - 1) \<le> n div 2" using 1 by simp
    have b: "bitlen n = Suc (bitlen (n div 2))" using "1.prems" by (rule bitlen_pos)
    have p: "0 < bitlen (n div 2)" using False by (simp add: bitlen_pos)
    have "2 ^ (bitlen n - 1) = 2 * 2 ^ (bitlen (n div 2) - 1)"
      using b p by (cases "bitlen (n div 2)") simp_all
    also have "\<dots> \<le> 2 * (n div 2)" using ih by simp
    also have "\<dots> \<le> n" by simp
    finally show ?thesis .
  qed
qed

lemma bitlen_le: "n < 2 ^ k \<Longrightarrow> bitlen n \<le> k"
proof (rule ccontr)
  assume n: "n < 2 ^ k" and "\<not> bitlen n \<le> k"
  then have k: "k \<le> bitlen n - 1" and pos: "0 < n"
    by (auto intro: Nat.gr0I)
  have "(2::nat) ^ k \<le> 2 ^ (bitlen n - 1)" using k by (rule power_increasing) simp
  also have "\<dots> \<le> n" using pos by (rule bitlen_lower)
  finally show False using n by simp
qed

lemma round_half_even_exact: "round_half_even (x * 2 ^ j) (2 ^ j) = x"
  by (simp add: round_half_even_def)

lemma to_binary64_exact:
  assumes pos: "0 < N" and small: "N < 2 ^ 53"
  shows "to_binary64 (N * 2 ^ j) (2 ^ j) = Inr (N * 2 ^ (53 - bitlen N), int (bitlen N) - 53)"
proof -
  define b where "b = bitlen N"
  have b1: "1 \<le> b" using pos by (simp add: b_def bitlen_pos)
  have b53: "b \<le> 53" using small by (simp add: b_def bitlen_le)
  have lower: "2 ^ (b - 1) \<le> N" using bitlen_lower[OF pos] by (simp add: b_def)
  have bl_n: "bitlen (N * 2 ^ j) = b + j" using pos by (simp add: b_def bitlen_mult_pow)
  have bl_d: "bitlen (2 ^ j) = Suc j" by (rule bitlen_pow)
  define e0 where "e0 = int (bitlen (N * 2 ^ j)) - int (bitlen (2 ^ j :: nat)) - 53"
  have e0: "e0 = int b - 54" by (simp add: e0_def bl_n bl_d)
  have e0neg: "e0 < 0" using b53 e0 by simp
  have ne0: "nat (- e0) = 54 - b" using e0 b53 by simp
  have s0: "scaled (N * 2 ^ j) (2 ^ j) e0 = (N * 2 ^ j * 2 ^ (54 - b), 2 ^ j)"
    using e0neg by (simp add: scaled_def ne0)
  have "(2::nat) ^ 53 = 2 ^ (b - 1) * 2 ^ (54 - b)"
    using b1 b53 by (simp flip: power_add)
  also have "\<dots> \<le> N * 2 ^ (54 - b)" using lower by simp
  finally have big: "(2::nat) ^ 53 \<le> N * 2 ^ (54 - b)" .
  have cond: "(2::nat) ^ 53 * 2 ^ j \<le> N * 2 ^ j * 2 ^ (54 - b)"
  proof -
    have "(2::nat) ^ 53 * 2 ^ j \<le> (N * 2 ^ (54 - b)) * 2 ^ j"
      using big by (rule mult_le_mono1)
    then show ?thesis by (simp add: mult_ac)
  qed
  define e where "e = e0 + 1"
  have e: "e = int b - 53" by (simp add: e_def e0)
  have range: "\<not> (e < - 1074 \<or> 970 < e)" using e b1 b53 by simp
  have s1: "scaled (N * 2 ^ j) (2 ^ j) e = ((N * 2 ^ (53 - b)) * 2 ^ j, 2 ^ j)"
  proof (cases "b = 53")
    case True
    then show ?thesis using e by (simp add: scaled_def)
  next
    case False
    then have "e < 0" and "nat (- e) = 53 - b" using e b53 by simp_all
    then show ?thesis by (simp add: scaled_def mult_ac)
  qed
  have n0: "N * 2 ^ j \<noteq> 0" using pos by simp
  have "to_binary64 (N * 2 ^ j) (2 ^ j) =
          (let e' = (case scaled (N * 2 ^ j) (2 ^ j) e0 of (a, c) \<Rightarrow> if 2 ^ 53 * c \<le> a then e0 + 1 else e0)
           in if e' < - 1074 \<or> 970 < e' then Inl Unsupported
              else case scaled (N * 2 ^ j) (2 ^ j) e' of (a, c) \<Rightarrow> Inr (round_half_even a c, e'))"
    unfolding to_binary64_def e0_def Let_def using n0 by simp
  also have "(case scaled (N * 2 ^ j) (2 ^ j) e0 of (a, c) \<Rightarrow> if 2 ^ 53 * c \<le> a then e0 + 1 else e0) = e"
    using cond by (simp add: s0 e_def)
  finally have "to_binary64 (N * 2 ^ j) (2 ^ j) =
                  (case scaled (N * 2 ^ j) (2 ^ j) e of (a, c) \<Rightarrow> Inr (round_half_even a c, e))"
    using range by (simp add: Let_def)
  also have "\<dots> = Inr (round_half_even ((N * 2 ^ (53 - b)) * 2 ^ j) (2 ^ j), e)"
    by (simp only: s1 prod.case)
  also have "\<dots> = Inr (N * 2 ^ (53 - b), e)"
    by (simp only: round_half_even_exact)
  finally show ?thesis by (simp only: e b_def)
qed

lemma astype_int_exact:
  assumes "e \<le> 0" and "V < 2 ^ 63"
  shows "astype_int (PyFloat (V * 2 ^ nat (- e)) e) = Inr (int V)"
proof (cases "e = 0")
  case True
  then show ?thesis using assms(2) by simp
next
  case False
  then have "\<not> 0 \<le> e" using assms(1) by simp
  then show ?thesis using assms(2) by (simp add: Let_def)
qed

subsection \<open>Cells of digits\<close>

lemma replace_k_append: "replace_k (a @ b) = replace_k a @ replace_k b"
  by (simp add: replace_k_def)

lemma replace_k_digits: "list_all is_digit s \<Longrightarrow> replace_k s = s"
proof (induction s)
  case Nil
  then show ?case by (simp add: replace_k_def)
next
  case (Cons c s)
  then have "c \<noteq> CHR ''k''" by (auto simp: is_digit_def)
  then show ?case using Cons by (simp add: replace_k_def)
qed

lemma scan_number_digits:
  assumes "is_digit c" and "list_all is_digit cs"
    and "rest = [] \<or> (\<exists>r. rest = CHR ''*'' # r)"
  shows "scan_number c (cs @ rest) = (TInt (c # cs), rest)"
proof -
  have nd: "\<not> is_digit CHR ''*''" by (simp add: is_digit_def)
  have all: "\<forall>x \<in> set cs. is_digit x" using assms(2) by (simp add: list_all_iff)
  have tw: "takeWhile is_digit (cs @ rest) = cs"
    using assms(3) all nd by (auto simp: takeWhile_append2)
  have dw: "dropWhile is_digit (cs @ rest) = rest"
    using assms(3) all nd by (auto simp: dropWhile_append2)
  have sf: "scan_fraction rest = (False, [], rest)"
    using assms(3) by (auto simp: scan_fraction_def)
  have se: "scan_exponent rest = (None, rest)"
  proof (cases rest)
    case Nil
    then show ?thesis by (simp add: scan_exponent_def)
  next
    case (Cons a r)
    then have "a = CHR ''*''" using assms(3) by simp
    then show ?thesis using Cons by (cases r) (simp_all add: scan_exponent_def)
  qed
  show ?thesis
    using assms(1) by (simp add: scan_number_def tw dw sf se)
qed

lemma lex_digits:
  assumes "s \<noteq> []" and "list_all is_digit s"
    and "rest = [] \<or> (\<exists>r. rest = CHR ''*'' # r)"
  shows "lex (s @ rest) = map_sum id (Cons (TInt s)) (lex rest)"
proof -
  from assms(1) obtain c cs where s: "s = c # cs" by (cases s) auto
  have c: "is_digit c" and cs: "list_all is_digit cs" using assms(2) s by simp_all
  have sn: "scan_number c (cs @ rest) = (TInt (c # cs), rest)"
    by (rule scan_number_digits[OF c cs assms(3)])
  have na: "\<not> (case rest of [] \<Rightarrow> False | d # x \<Rightarrow> is_alpha d)"
    using assms(3) by (auto simp: is_alpha_def)
  show ?thesis
    using c na by (simp add: s sn)
qed

lemma lex_k_suffix: "lex ''*1e3'' = Inr [TStar, TFloat ''1'' [] ''3'']"
  by (simp add: eval_simps)

lemma thousand: "operand_value (TFloat ''1'' [] ''3'') = Inr (PyFloat (1000 * 2 ^ 43) (- 43))"
  by (simp add: eval_simps)

lemma no_names_digits [simp]:
  "\<not> bound_name scope (TInt s)" "\<not> is_name (TInt s)" "\<not> bound_name scope TStar"
  "\<not> is_name TStar" "\<not> bound_name scope (TFloat a b c)" "\<not> is_name (TFloat a b c)"
  by simp_all

lemma pd_eval_digits:
  assumes "s \<noteq> []" and "list_all is_digit s" and "valid_int_literal s"
    and "nat_of_digits s < 2 ^ 53"
  shows "pd_eval scope s = Inr (PyInt (nat_of_digits s))"
proof -
  have "lex s = Inr [TInt s]"
    using lex_digits[OF assms(1,2), of "[]"] by simp
  then show ?thesis using assms by (simp add: pd_eval_def)
qed

lemma int_times_thousand:
  assumes "1000 * n < 2 ^ 53"
  shows "\<exists>m e. py_mul (PyInt n) (PyFloat (1000 * 2 ^ 43) (- 43)) = Inr (PyFloat m e) \<and>
               astype_int (PyFloat m e) = Inr (1000 * int n)"
proof (cases "n = 0")
  case True
  then show ?thesis by (simp add: to_binary64_def float_mul_def)
next
  case False
  define b where "b = bitlen n"
  define V where "V = 1000 * n"
  define b' where "b' = bitlen V"
  have n53: "n < 2 ^ 53" using assms by simp
  have b53: "b \<le> 53" using n53 by (simp add: b_def bitlen_le)
  have b'53: "b' \<le> 53" using assms by (simp add: b'_def V_def bitlen_le)
  have Vpos: "0 < V" using False by (simp add: V_def)
  have V53: "V < 2 ^ 53" using assms by (simp add: V_def)
  have c1: "to_binary64 n 1 = Inr (n * 2 ^ (53 - b), int b - 53)"
    using to_binary64_exact[of n 0] False n53 by (simp add: b_def)
  have neg: "\<not> 0 \<le> int b - 53 + - 43" using b53 by simp
  have ex: "nat (- (int b - 53 + - 43)) = 96 - b" using b53 by simp
  have prod: "n * 2 ^ (53 - b) * (1000 * 2 ^ 43) = V * 2 ^ (96 - b)"
  proof -
    have "(53 - b) + 43 = 96 - b" using b53 by simp
    then have "(2::nat) ^ (53 - b) * 2 ^ 43 = 2 ^ (96 - b)"
      by (simp only: power_add[symmetric])
    then have "n * 1000 * (2 ^ (53 - b) * 2 ^ 43) = n * 1000 * 2 ^ (96 - b)" by simp
    then show ?thesis by (simp add: V_def mult_ac)
  qed
  have c2: "float_mul (n * 2 ^ (53 - b), int b - 53) (1000 * 2 ^ 43, - 43) =
            Inr (V * 2 ^ (53 - b'), int b' - 53)"
  proof -
    have "float_mul (n * 2 ^ (53 - b), int b - 53) (1000 * 2 ^ 43, - 43) =
            to_binary64 (n * 2 ^ (53 - b) * (1000 * 2 ^ 43)) (2 ^ nat (- (int b - 53 + - 43)))"
      using neg by (simp only: float_mul_def prod.case if_False)
    also have "\<dots> = to_binary64 (V * 2 ^ (96 - b)) (2 ^ (96 - b))"
      by (simp only: prod ex)
    also have "\<dots> = Inr (V * 2 ^ (53 - b'), int b' - 53)"
      unfolding b'_def by (rule to_binary64_exact[OF Vpos V53])
    finally show ?thesis .
  qed
  have mul: "py_mul (PyInt n) (PyFloat (1000 * 2 ^ 43) (- 43)) =
               Inr (PyFloat (V * 2 ^ (53 - b')) (int b' - 53))"
    by (simp only: py_mul.simps c1 sum.case c2 map_sum.simps prod.case)
  have a: "astype_int (PyFloat (V * 2 ^ nat (- (int b' - 53))) (int b' - 53)) = Inr (int V)"
    by (rule astype_int_exact) (use b'53 V53 in simp_all)
  have nn: "nat (- (int b' - 53)) = 53 - b'" using b'53 by simp
  have iv: "int V = 1000 * int n" by (simp add: V_def)
  have "astype_int (PyFloat (V * 2 ^ (53 - b')) (int b' - 53)) = Inr (1000 * int n)"
    using a by (simp only: nn iv)
  with mul show ?thesis by blast
qed

lemma gdp_value_digits:
  assumes "s \<noteq> []" and "list_all is_digit s" and "valid_int_literal s"
    and "nat_of_digits s < 2 ^ 53"
  shows "gdp_value scope s = Inr (int (nat_of_digits s))"
  using pd_eval_digits[OF assms] assms(2) by (simp add: gdp_value_def replace_k_digits)

lemma gdp_value_digits_k:
  assumes "s \<noteq> []" and "list_all is_digit s" and "valid_int_literal s"
    and "1000 * nat_of_digits s < 2 ^ 53"
  shows "gdp_value scope (s @ ''k'') = Inr (1000 * int (nat_of_digits s))"
proof -
  have r: "replace_k (s @ ''k'') = s @ ''*1e3''"
    using assms(2) by (simp add: replace_k_append replace_k_digits) (simp add: replace_k_def)
  have d: "''*1e3'' = [] \<or> (\<exists>r. ''*1e3'' = CHR ''*'' # r)" by simp
  have l: "lex (s @ ''*1e3'') = Inr [TInt s, TStar, TFloat ''1'' [] ''3'']"
    by (simp only: lex_digits[OF assms(1,2) d] lex_k_suffix map_sum.simps)
  have n53: "nat_of_digits s < 2 ^ 53" using assms(4) by simp
  from int_times_thousand[OF assms(4)] obtain m e where
    mul: "py_mul (PyInt (nat_of_digits s)) (PyFloat (1000 * 2 ^ 43) (- 43)) = Inr (PyFloat m e)"
    and cast: "astype_int (PyFloat m e) = Inr (1000 * int (nat_of_digits s))" by blast
  have ev: "eval_product (PyInt (nat_of_digits s)) [TFloat ''1'' [] ''3''] = Inr (PyFloat m e)"
    by (simp only: eval_product.simps thousand sum.case mul)
  have "pd_eval scope (s @ ''*1e3'') = Inr (PyFloat m e)"
    using assms(1,3) n53 ev by (simp add: pd_eval_def l)
  then show ?thesis by (simp only: gdp_value_def r sum.case cast)
qed

text \<open>
  Claim C3, as the code has it. The conversion maps a text of decimal digits without a
  leading zero to that integer, and such a text followed by \<open>k\<close> to a thousand times it
  (shown for values below \<open>2 ^ 53\<close>); \<open>"5k"\<close> gives 5000, \<open>"12.5k"\<close> 12500, \<open>"300"\<close> 300 and
  \<open>"5.2k"\<close> 5200; \<open>"abc"\<close> raises, given that no variable of that name is in the scope
  of the evaluation. A text of neither form is not rejected as such: whatever \<open>pd.eval\<close>
  can evaluate gives a value.
\<close>

theorem gdp_value_forms:
  "(plain_integer s \<and> valid_int_literal s \<and> nat_of_digits s < 2 ^ 53 \<longrightarrow>
      gdp_value scope s = Inr (int (nat_of_digits s))) \<and>
   (plain_integer s \<and> valid_int_literal s \<and> 1000 * nat_of_digits s < 2 ^ 53 \<longrightarrow>
      gdp_value scope (s @ ''k'') = Inr (1000 * int (nat_of_digits s))) \<and>
   gdp_value scope ''5k'' = Inr 5000 \<and>
   gdp_value scope ''12.5k'' = Inr 12500 \<and>
   gdp_value scope ''300'' = Inr 300 \<and>
   gdp_value scope ''5.2k'' = Inr 5200 \<and>
   (''abc'' \<notin> set scope \<longrightarrow> gdp_value scope ''abc'' = Inl EvalError)"
proof -
  have a: "gdp_value scope s = Inr (int (nat_of_digits s))"
    if "plain_integer s" "valid_int_literal s" "nat_of_digits s < 2 ^ 53"
    using that by (intro gdp_value_digits) (simp_all add: plain_integer_def)
  have b: "gdp_value scope (s @ ''k'') = Inr (1000 * int (nat_of_digits s))"
    if "plain_integer s" "valid_int_literal s" "1000 * nat_of_digits s < 2 ^ 53"
    using that by (intro gdp_value_digits_k) (simp_all add: plain_integer_def)
  have c: "gdp_value scope ''5k'' = Inr 5000" by (simp add: eval_simps)
  have d: "gdp_value scope ''12.5k'' = Inr 12500" by (simp add: eval_simps)
  have e: "gdp_value scope ''300'' = Inr 300" by (simp add: eval_simps)
  have f: "gdp_value scope ''5.2k'' = Inr 5200" by (simp add: eval_simps)
  have g: "gdp_value scope ''abc'' = Inl EvalError" if "''abc'' \<notin> set scope"
    using that by (simp add: eval_simps)
  show ?thesis using a b c d e f g by blast
qed

theorem gdp_value_forms_witness:
  "plain_integer ''42'' \<and> valid_int_literal ''42'' \<and> nat_of_digits ''42'' = 42 \<and>
   gdp_value [] ''42'' = Inr 42 \<and> gdp_value [] ''42k'' = Inr 42000 \<and>
   ''abc'' \<notin> set [] \<and> gdp_value [] ''abc'' = Inl EvalError"
proof -
  have p: "plain_integer ''42''" by (simp add: plain_integer_def is_digit_def)
  have v: "valid_int_literal ''42''" by (simp add: valid_int_literal_def)
  have n: "nat_of_digits ''42'' = 42" by (simp add: nat_of_digits_def digit_val_def)
  have n1: "nat_of_digits ''42'' < 2 ^ 53" by (simp add: n)
  have n2: "1000 * nat_of_digits ''42'' < 2 ^ 53" by (simp add: n)
  have s: "''abc'' \<notin> set ([] :: string list)" by simp
  from gdp_value_forms[of "''42''" "[]"] p v n1 n2 s
  have "gdp_value [] ''42'' = Inr (int (nat_of_digits ''42''))"
    and "gdp_value [] (''42'' @ ''k'') = Inr (1000 * int (nat_of_digits ''42''))"
    and "gdp_value [] ''abc'' = Inl EvalError"
    by blast+
  then show ?thesis using p v by (simp add: n)
qed

text \<open>
  \<open>"5kk"\<close> is of neither form and converts to 5000000, since it becomes the product
  \<open>5*1e3*1e3\<close>; \<open>"007"\<close> is a plain integer and raises, since Python refuses a decimal
  literal with a leading zero.
\<close>

theorem gdp_value_evaluates_counterexample:
  "\<not> plain_integer ''5kk'' \<and> \<not> k_suffixed ''5kk'' \<and> gdp_value [] ''5kk'' = Inr 5000000 \<and>
   plain_integer ''007'' \<and> gdp_value [] ''007'' = Inl EvalError"
proof -
  have "gdp_value [] ''5kk'' = Inr 5000000" by (simp add: eval_simps)
  moreover have "gdp_value [] ''007'' = Inl EvalError" by (simp add: eval_simps)
  moreover have "\<not> plain_integer ''5kk''" "\<not> k_suffixed ''5kk''" "plain_integer ''007''"
    by (simp_all add: plain_integer_def k_suffixed_def number_text_def is_digit_def)
  ultimately show ?thesis by simp
qed

text \<open>
  The float product is truncated, not rounded, by \<open>astype(int)\<close>: \<open>32.3 * 1e3\<close> is the
  double just below 32300.
\<close>

lemma gdp_value_truncates: "gdp_value [] ''32.3k'' = Inr 32299"
  by (simp add: eval_simps)

end
